theory Spec2Isabelle
  imports Main "HOL-Library.Word"
begin

unbundle bit_operations_syntax

section \<open>The index-based ring of include/linux/core\_ring.h\<close>

text \<open>
  The ring of \<^verbatim>\<open>struct core_ring\<close> owns no storage of its own: every access to a
  slot goes through the function table stored in the ring (seek, zero, valid, copy).
  The memory those callbacks work on is the type parameter \<open>'m\<close>, passed through every
  operation and returned updated. A \<^verbatim>\<open>void *\<close> is an address, a C \<^verbatim>\<open>int\<close> is a
  32-bit word compared as a signed number (its arithmetic wraps around, as in a kernel
  build; no index of a ring in use gets that far), and \<^verbatim>\<open>NULL\<close> is the address 0.

  The callbacks receive the ring pointer in C; here they receive the memory and the
  index they are asked about, which is what a table needs to find a slot. The
  spinlocks are fields of the record: an operation that takes and releases a lock
  leaves the lock as it found it, so the critical sections are modelled as atomic
  steps on the remaining fields, and the variants of one operation that differ in the
  locking primitive alone (plain, irq, bh, any) are one function here.
\<close>

type_synonym addr = int

definition NULL :: addr where
  "NULL = 0"

datatype spinlock = Uninitialised | Unlocked

text \<open>
  Modelled from the spec: the errno constants of \<^verbatim>\<open>asm/errno.h\<close>, a header that is
  not among the sources. The spec's Full is \<^verbatim>\<open>-ENOSPC\<close> for the index-based ring and
  \<^verbatim>\<open>-EFAULT\<close> for the packet ring, OutOfMemory is \<^verbatim>\<open>-ENOMEM\<close> and
  InvalidArgument would be \<^verbatim>\<open>-EINVAL\<close>.
\<close>

definition ENOMEM :: int where
  "ENOMEM = 12"

definition EFAULT :: int where
  "EFAULT = 14"


definition ENOSPC :: int where
  "ENOSPC = 28"

record 'm core_ring =
  producer :: "32 word"
  producer_lock :: spinlock
  consumer :: "32 word"
  consumer_lock :: spinlock
  size_cr :: "32 word"
  entry_size :: "32 word"
  seek_fn :: "32 word \<Rightarrow> addr"
  zero_fn :: "'m \<Rightarrow> 32 word \<Rightarrow> 'm"
  valid_fn :: "'m \<Rightarrow> 32 word \<Rightarrow> bool"
  copy_fn :: "'m \<Rightarrow> addr \<Rightarrow> addr \<Rightarrow> 'm"

text \<open>
  The functions whose C name starts with two underscores (the variants that run with
  the lock already held) carry the prefix \<open>u_\<close> here. Line 120 of the header writes
  \<^verbatim>\<open>r->seek_fn(r, producer)\<close> with a bare \<^verbatim>\<open>producer\<close>, as line 64 does in
  \<^verbatim>\<open>__core_ring_full\<close>; the only thing that name can stand for is the field
  \<^verbatim>\<open>r->producer\<close> tested on line 117.
\<close>

definition u_core_ring_full :: "'m core_ring \<Rightarrow> 'm \<Rightarrow> bool" where
  "u_core_ring_full r m = valid_fn r m (producer r)"

definition u_core_ring_produce ::
  "'m core_ring \<Rightarrow> 'm \<Rightarrow> addr \<Rightarrow> int \<times> 'm core_ring \<times> 'm" where
  "u_core_ring_produce r m ptr =
     (if size_cr r = 0 \<or> valid_fn r m (producer r) then (- ENOSPC, r, m)
      else
        let m' = copy_fn r m (seek_fn r (producer r)) ptr;
            r' = r\<lparr>producer := producer r + 1\<rparr>;
            r'' = (if size_cr r' \<le>s producer r' then r'\<lparr>producer := 0\<rparr> else r')
        in (0, r'', m'))"

definition u_core_ring_empty :: "'m core_ring \<Rightarrow> 'm \<Rightarrow> bool" where
  "u_core_ring_empty r m = (\<not> valid_fn r m (consumer r))"

definition u_core_ring_discard_one :: "'m core_ring \<Rightarrow> 'm \<Rightarrow> 'm core_ring \<times> 'm" where
  "u_core_ring_discard_one r m =
     (let m' = zero_fn r m (consumer r);
          r' = r\<lparr>consumer := consumer r + 1\<rparr>;
          r'' = (if size_cr r' \<le>s consumer r' then r'\<lparr>consumer := 0\<rparr> else r')
      in (r'', m'))"

definition u_core_ring_consume ::
  "'m core_ring \<Rightarrow> 'm \<Rightarrow> addr \<Rightarrow> addr \<times> 'm core_ring \<times> 'm" where
  "u_core_ring_consume r m ptr =
     (if valid_fn r m (consumer r) then
        (case u_core_ring_discard_one r (copy_fn r m ptr (seek_fn r (consumer r))) of
           (r', m') \<Rightarrow> (ptr, r', m'))
      else (NULL, r, m))"

text \<open>
  The loop of \<^verbatim>\<open>__core_ring_consume_batched\<close>, with the loop counter \<open>i\<close> as an
  argument: the batched consume starts it at 0. The array pointer moves on by
  \<^verbatim>\<open>r->entry_size\<close> bytes after every element. The loop ends because the counter
  cannot overflow below \<open>n\<close>.
\<close>

lemma sint_succ_less:
  fixes i n :: "32 word"
  assumes "i <s n"
  shows "sint (i + 1) = sint i + 1"
proof -
  have "sint i < sint n" using assms by (simp add: word_sless_alt)
  moreover have "sint n < 2 ^ 31" using sint_lt [of n] by simp
  moreover have "- (2 ^ 31) \<le> sint i" using sint_ge [of i] by simp
  ultimately have "signed_take_bit 31 (sint i + 1) = sint i + 1"
    by (intro signed_take_bit_int_eq_self) auto
  then show ?thesis by (simp add: sint_word_ariths)
qed

function batched_loop ::
  "'m core_ring \<Rightarrow> 'm \<Rightarrow> addr \<Rightarrow> 32 word \<Rightarrow> 32 word \<Rightarrow> 32 word \<times> 'm core_ring \<times> 'm" where
  "batched_loop r m array n i =
     (if i <s n then
        (case u_core_ring_consume r m array of
           (ptr, r', m') \<Rightarrow>
             if ptr = NULL then (i, r', m')
             else batched_loop r' m' (array + sint (entry_size r')) n (i + 1))
      else (i, r, m))"
  by pat_completeness auto

termination
  by (relation "measure (\<lambda>(r, m, array, n, i). nat (sint n - sint i))")
     (auto simp: sint_succ_less word_sless_alt)

definition u_core_ring_consume_batched ::
  "'m core_ring \<Rightarrow> 'm \<Rightarrow> addr \<Rightarrow> 32 word \<Rightarrow> 32 word \<times> 'm core_ring \<times> 'm" where
  "u_core_ring_consume_batched r m array n = batched_loop r m array n 0"

text \<open>
  \<^verbatim>\<open>core_ring_init\<close> takes any size; its \<^verbatim>\<open>gfp\<close> argument is not used by the C
  function and is left out.
\<close>

definition u_core_ring_set_size :: "'m core_ring \<Rightarrow> 32 word \<Rightarrow> 'm core_ring" where
  "u_core_ring_set_size r sz = r\<lparr>size_cr := sz\<rparr>"

definition core_ring_init :: "'m core_ring \<Rightarrow> 32 word \<Rightarrow> int \<times> 'm core_ring" where
  "core_ring_init r sz =
     (0, (u_core_ring_set_size r sz)\<lparr>consumer := 0, producer := 0,
           producer_lock := Unlocked, consumer_lock := Unlocked\<rparr>)"

section \<open>A function table over an array of slots\<close>

text \<open>
  Modelled from the spec: the function table \<^verbatim>\<open>{locate-slot, test-slot-valid,
  mark-slot-empty, copy-element}\<close> that the caller of the index-based ring supplies; no
  implementation of the callbacks is among the sources. The table below is the one the
  spec describes: the slots are an array of entries of \<open>es\<close> bytes starting at address
  \<open>base\<close>; an entry of memory holds an element (\<open>Some v\<close>) or is zeroed (\<open>None\<close>);
  a slot is valid when it is not zeroed; zeroing a slot marks it empty; copying moves one
  entry from the source address to the destination address.
\<close>

type_synonym 'v mem = "addr \<Rightarrow> 'v option"

definition slot_seek :: "addr \<Rightarrow> 32 word \<Rightarrow> 32 word \<Rightarrow> addr" where
  "slot_seek base es i = base + sint i * sint es"

definition slot_valid :: "addr \<Rightarrow> 32 word \<Rightarrow> 'v mem \<Rightarrow> 32 word \<Rightarrow> bool" where
  "slot_valid base es m i = (m (slot_seek base es i) \<noteq> None)"

definition slot_zero :: "addr \<Rightarrow> 32 word \<Rightarrow> 'v mem \<Rightarrow> 32 word \<Rightarrow> 'v mem" where
  "slot_zero base es m i = m(slot_seek base es i := None)"

definition slot_copy :: "'v mem \<Rightarrow> addr \<Rightarrow> addr \<Rightarrow> 'v mem" where
  "slot_copy m dst src = m(dst := m src)"

definition slot_table :: "addr \<Rightarrow> 32 word \<Rightarrow> 'v mem core_ring" where
  "slot_table base es =
     \<lparr>producer = 0, producer_lock = Uninitialised, consumer = 0,
      consumer_lock = Uninitialised, size_cr = 0, entry_size = es,
      seek_fn = slot_seek base es, zero_fn = slot_zero base es,
      valid_fn = slot_valid base es, copy_fn = slot_copy\<rparr>"

definition load :: "'v mem \<Rightarrow> addr \<Rightarrow> 'v option" where
  "load m a = m a"

section \<open>The packet ring of skb\_ring.h and skb\_ring.c\<close>

text \<open>
  Modelled from the spec: \<^verbatim>\<open>struct sk_buff\<close>, \<^verbatim>\<open>skb_vlan_tag_present\<close> and
  \<^verbatim>\<open>VLAN_HLEN\<close> belong to \<^verbatim>\<open>linux/skbuff.h\<close> and \<^verbatim>\<open>linux/if_vlan.h\<close>, which
  are not among the sources. Of a packet the ring reads its byte length and whether it
  carries a tag; the "known encapsulation overhead" of the spec is the constant
  \<open>VLAN_HLEN\<close>, whose value no statement below depends on.
\<close>

record sk_buff =
  skb_len :: "32 word"
  vlan_present :: bool

definition VLAN_HLEN :: "32 word" where
  "VLAN_HLEN = 4"

text \<open>
  A descriptor is a packet pointer (\<open>None\<close> for \<^verbatim>\<open>NULL\<close>) with the cached length, a
  C \<^verbatim>\<open>int\<close>. The indices and the size of the ring are \<^verbatim>\<open>unsigned long\<close>, 64 bits;
  \<open>descs\<close> is the array that \<^verbatim>\<open>kmalloc\<close> returned, or \<open>None\<close> for \<^verbatim>\<open>NULL\<close>.
\<close>

record 'p skb_desc =
  skb :: "'p option"
  len :: "32 word"

record 'p skb_ring =
  rlock :: spinlock
  tail :: "64 word"
  size_skb :: "64 word"
  descs :: "'p skb_desc list option"
  head :: "64 word"
  wlock :: spinlock

text \<open>
  Modelled from the spec: the macros \<^verbatim>\<open>CIRC_CNT\<close> and \<^verbatim>\<open>CIRC_SPACE\<close> of
  \<^verbatim>\<open>linux/circ_buf.h\<close>, a header that is not among the sources. The spec gives the
  count as the gap between producer and consumer index modulo the capacity, computed
  with a mask (which is why the capacity of this ring has to be a power of two);
  \<open>CIRC_SPACE\<close> is, as in that header, the count from \<open>head + 1\<close> to \<open>tail\<close>: the free
  room, with one slot always left unused.
\<close>

definition CIRC_CNT :: "64 word \<Rightarrow> 64 word \<Rightarrow> 64 word \<Rightarrow> 64 word" where
  "CIRC_CNT head' tail' sz = (head' - tail') AND (sz - 1)"

definition CIRC_SPACE :: "64 word \<Rightarrow> 64 word \<Rightarrow> 64 word \<Rightarrow> 64 word" where
  "CIRC_SPACE head' tail' sz = CIRC_CNT tail' (head' + 1) sz"

text \<open>
  Access to \<^verbatim>\<open>ring->descs[i]\<close>: through a \<^verbatim>\<open>NULL\<close> pointer or beyond the allocated
  array the C program has no defined behaviour, which the model reports as a fault.
\<close>

datatype fault = NullDeref | OutOfBounds

definition desc_at :: "'p skb_ring \<Rightarrow> 64 word \<Rightarrow> fault + 'p skb_desc" where
  "desc_at ring i =
     (case descs ring of
        None \<Rightarrow> Inl NullDeref
      | Some ds \<Rightarrow> if unat i < length ds then Inr (ds ! unat i) else Inl OutOfBounds)"

text \<open>
  \<^verbatim>\<open>skb_ring_init\<close>. The argument \<open>alloc\<close> is what
  \<^verbatim>\<open>kmalloc(size * sizeof *ring->descs, GFP_ATOMIC)\<close> returned: \<open>None\<close> for \<^verbatim>\<open>NULL\<close>,
  otherwise the fresh array with whatever content the allocator left in it.
\<close>

definition skb_ring_init ::
  "'p skb_ring \<Rightarrow> 64 word \<Rightarrow> 'p skb_desc list option \<Rightarrow> int \<times> 'p skb_ring" where
  "skb_ring_init ring sz alloc =
     (let ring1 = ring\<lparr>rlock := Unlocked, wlock := Unlocked, head := 0, tail := 0,
                       descs := alloc\<rparr>
      in case alloc of
           None \<Rightarrow> (- ENOMEM, ring1)
         | Some ds \<Rightarrow> (0, ring1\<lparr>size_skb := sz\<rparr>))"

text \<open>
  \<^verbatim>\<open>skb_ring_queue\<close>. The map \<open>h\<close> gives the packet behind a pointer; the pointer
  handed in may be \<^verbatim>\<open>NULL\<close>, which the function dereferences once it has found room.
\<close>

definition skb_ring_queue ::
  "'p skb_ring \<Rightarrow> ('p \<Rightarrow> sk_buff) \<Rightarrow> 'p option \<Rightarrow> fault + int \<times> 'p skb_ring" where
  "skb_ring_queue ring h skbp =
     (let tail' = tail ring; head' = head ring in
      if 1 \<le> CIRC_SPACE head' tail' (size_skb ring) then
        (case descs ring of
           None \<Rightarrow> Inl NullDeref
         | Some ds \<Rightarrow>
             if unat head' < length ds then
               (case skbp of
                  None \<Rightarrow> Inl NullDeref
                | Some p \<Rightarrow>
                    let d = \<lparr>skb = Some p,
                             len = (if vlan_present (h p) then skb_len (h p) + VLAN_HLEN
                                    else skb_len (h p))\<rparr>
                    in Inr (0, ring\<lparr>descs := Some (ds[unat head' := d]),
                                    head := (head' + 1) AND (size_skb ring - 1)\<rparr>))
             else Inl OutOfBounds)
      else Inr (- EFAULT, ring))"

definition skb_ring_dequeue :: "'p skb_ring \<Rightarrow> fault + 'p option \<times> 'p skb_ring" where
  "skb_ring_dequeue ring =
     (let head' = head ring; tail' = tail ring in
      if 1 \<le> CIRC_CNT head' tail' (size_skb ring) then
        (case desc_at ring tail' of
           Inl f \<Rightarrow> Inl f
         | Inr d \<Rightarrow> Inr (skb d, ring\<lparr>tail := (tail' + 1) AND (size_skb ring - 1)\<rparr>))
      else Inr (None, ring))"

definition skb_ring_empty :: "'p skb_ring \<Rightarrow> bool" where
  "skb_ring_empty ring = (head ring = tail ring)"

definition skb_ring_peek :: "'p skb_ring \<Rightarrow> fault + 32 word" where
  "skb_ring_peek ring =
     (let head' = head ring; tail' = tail ring in
      if 1 \<le> CIRC_CNT head' tail' (size_skb ring) then
        (case desc_at ring tail' of Inl f \<Rightarrow> Inl f | Inr d \<Rightarrow> Inr (len d))
      else Inr 0)"

definition skb_ring_queue_len :: "'p skb_ring \<Rightarrow> 32 word" where
  "skb_ring_queue_len ring = ucast (CIRC_CNT (head ring) (tail ring) (size_skb ring))"

text \<open>
  \<^verbatim>\<open>skb_ring_purge\<close>. The loop reads \<open>head\<close> and \<open>tail\<close> into local variables
  before it starts and tests \<^verbatim>\<open>CIRC_CNT(head, tail, ring->size) >= 1\<close> on them; its body
  frees the packet of \<^verbatim>\<open>ring->descs[tail]\<close> and stores \<open>tail + 1\<close> (masked) in
  \<^verbatim>\<open>ring->tail\<close>, and assigns neither local. The loop may therefore not end, so it is a
  partial function: \<open>None\<close> is a loop that runs forever. The list \<open>freed\<close> records,
  in order, the pointers handed to \<^verbatim>\<open>kfree_skb\<close>.
\<close>

partial_function (option) purge_loop ::
  "64 word \<Rightarrow> 64 word \<Rightarrow> 'p skb_ring \<Rightarrow> 'p option list \<Rightarrow>
   ('p option list \<times> (fault + 'p skb_ring)) option" where
  "purge_loop head' tail' ring freed =
     (if 1 \<le> CIRC_CNT head' tail' (size_skb ring) then
        (case desc_at ring tail' of
           Inl f \<Rightarrow> Some (freed, Inl f)
         | Inr d \<Rightarrow>
             purge_loop head' tail' (ring\<lparr>tail := (tail' + 1) AND (size_skb ring - 1)\<rparr>)
               (freed @ [skb d]))
      else Some (freed, Inr ring))"

definition skb_ring_purge ::
  "'p skb_ring \<Rightarrow> ('p option list \<times> (fault + 'p skb_ring)) option" where
  "skb_ring_purge ring = purge_loop (head ring) (tail ring) ring []"

section \<open>Sequences of calls\<close>

text \<open>
  A caller of the index-based ring, as a list of calls: \<open>Produce p\<close> hands in the element
  stored at address \<open>p\<close>, \<open>Consume p\<close> asks for the next element to be written to
  address \<open>p\<close>. The run records what each call returns: the return code of a produce;
  for a consume either nothing (\<^verbatim>\<open>NULL\<close> came back) or the returned pointer with what
  the caller then reads through it (\<open>obs\<close>). \<open>balance\<close> is the number of successful
  produce calls of a run less the number of its successful consume calls.
\<close>

datatype ring_op = Produce addr | Consume addr

datatype 'x outcome = Ret int | Nothing | Element addr 'x

fun core_ring_run ::
  "('m \<Rightarrow> addr \<Rightarrow> 'x) \<Rightarrow> 'm core_ring \<Rightarrow> 'm \<Rightarrow> ring_op list \<Rightarrow>
   'x outcome list \<times> 'm core_ring \<times> 'm" where
  "core_ring_run obs r m [] = ([], r, m)"
| "core_ring_run obs r m (Produce p # ops) =
     (case u_core_ring_produce r m p of
        (ret, r', m') \<Rightarrow>
          (case core_ring_run obs r' m' ops of
             (rs, r'', m'') \<Rightarrow> (Ret ret # rs, r'', m'')))"
| "core_ring_run obs r m (Consume p # ops) =
     (case u_core_ring_consume r m p of
        (ptr, r', m') \<Rightarrow>
          (case core_ring_run obs r' m' ops of
             (rs, r'', m'') \<Rightarrow>
               ((if ptr = NULL then Nothing else Element ptr (obs m' ptr)) # rs, r'', m'')))"

fun balance :: "'x outcome list \<Rightarrow> int" where
  "balance [] = 0"
| "balance (Ret e # rs) = (if e = 0 then 1 else 0) + balance rs"
| "balance (Nothing # rs) = balance rs"
| "balance (Element p x # rs) = balance rs - 1"

text \<open>
  The addresses \<open>array, array + es, array + 2 * es, \<dots>\<close> that a batched consume writes
  its elements to.
\<close>

definition batch_ptrs :: "addr \<Rightarrow> int \<Rightarrow> nat \<Rightarrow> addr list" where
  "batch_ptrs array es k = map (\<lambda>j. array + int j * es) [0 ..< k]"

text \<open>
  A caller of the packet ring: every \<open>Queue p\<close> hands in a pointer that is not
  \<^verbatim>\<open>NULL\<close>. A run stops at the first fault.
\<close>

datatype 'p skb_op = Queue 'p | Dequeue

datatype 'p skb_outcome = Queued int | Dequeued "'p option"

fun skb_ring_run ::
  "'p skb_ring \<Rightarrow> ('p \<Rightarrow> sk_buff) \<Rightarrow> 'p skb_op list \<Rightarrow>
   fault + 'p skb_outcome list \<times> 'p skb_ring" where
  "skb_ring_run ring h [] = Inr ([], ring)"
| "skb_ring_run ring h (Queue p # ops) =
     (case skb_ring_queue ring h (Some p) of
        Inl f \<Rightarrow> Inl f
      | Inr (ret, ring') \<Rightarrow>
          (case skb_ring_run ring' h ops of
             Inl f \<Rightarrow> Inl f
           | Inr (rs, ring'') \<Rightarrow> Inr (Queued ret # rs, ring'')))"
| "skb_ring_run ring h (Dequeue # ops) =
     (case skb_ring_dequeue ring of
        Inl f \<Rightarrow> Inl f
      | Inr (p, ring') \<Rightarrow>
          (case skb_ring_run ring' h ops of
             Inl f \<Rightarrow> Inl f
           | Inr (rs, ring'') \<Rightarrow> Inr (Dequeued p # rs, ring'')))"

fun skb_balance :: "'p skb_outcome list \<Rightarrow> int" where
  "skb_balance [] = 0"
| "skb_balance (Queued e # rs) = (if e = 0 then 1 else 0) + skb_balance rs"
| "skb_balance (Dequeued None # rs) = skb_balance rs"
| "skb_balance (Dequeued (Some p) # rs) = skb_balance rs - 1"

definition skb_outcomes ::
  "fault + 'p skb_outcome list \<times> 'p skb_ring \<Rightarrow> 'p skb_outcome list option" where
  "skb_outcomes x = (case x of Inl f \<Rightarrow> None | Inr (rs, ring) \<Rightarrow> Some rs)"

section \<open>What a ring holds\<close>

text \<open>
  \<open>cr_holds r m base q\<close>: the ring \<open>r\<close> uses the slot table at \<open>base\<close>, its capacity is
  positive, its consumer index lies within the capacity, and the slots from the consumer
  index onwards (cyclically) hold the elements \<open>q\<close>, oldest first, followed by zeroed
  slots up to the capacity; the producer index is \<open>length q\<close> slots ahead of the consumer
  index. \<open>slot_addrs\<close> are the addresses of the slots, and \<open>op_ok\<close> says that a call
  keeps its buffer outside the slot array, hands in an element that is not zeroed, and
  asks for an element with a buffer that is not \<^verbatim>\<open>NULL\<close>.
\<close>

definition uses_slot_table :: "'v mem core_ring \<Rightarrow> addr \<Rightarrow> bool" where
  "uses_slot_table r base \<longleftrightarrow>
     seek_fn r = slot_seek base (entry_size r) \<and> zero_fn r = slot_zero base (entry_size r) \<and>
     valid_fn r = slot_valid base (entry_size r) \<and> copy_fn r = slot_copy"

definition cell :: "'v mem core_ring \<Rightarrow> 'v mem \<Rightarrow> addr \<Rightarrow> nat \<Rightarrow> 'v option" where
  "cell r m base j =
     m (base + ((sint (consumer r) + int j) mod sint (size_cr r)) * sint (entry_size r))"

definition slot_addrs :: "'v mem core_ring \<Rightarrow> addr \<Rightarrow> addr set" where
  "slot_addrs r base =
     (\<lambda>i. base + int i * sint (entry_size r)) ` {0 ..< nat (sint (size_cr r))}"

definition cr_holds :: "'v mem core_ring \<Rightarrow> 'v mem \<Rightarrow> addr \<Rightarrow> 'v list \<Rightarrow> bool" where
  "cr_holds r m base q \<longleftrightarrow>
     uses_slot_table r base \<and> entry_size r \<noteq> 0 \<and>
     0 \<le> sint (consumer r) \<and> sint (consumer r) < sint (size_cr r) \<and>
     int (length q) \<le> sint (size_cr r) \<and>
     sint (producer r) = (sint (consumer r) + int (length q)) mod sint (size_cr r) \<and>
     (\<forall>j \<in> {0 ..< nat (sint (size_cr r))}.
        cell r m base j = (if j < length q then Some (q ! j) else None))"

fun op_ok :: "'v mem core_ring \<Rightarrow> addr \<Rightarrow> 'v mem \<Rightarrow> ring_op \<Rightarrow> bool" where
  "op_ok r base m (Produce p) = (p \<notin> slot_addrs r base \<and> m p \<noteq> None)"
| "op_ok r base m (Consume p) = (p \<notin> slot_addrs r base \<and> p \<noteq> NULL)"

text \<open>
  \<open>skb_holds ring k q\<close>: the size of the packet ring is \<open>2 ^ k\<close>, which is what the
  spec requires of it, the descriptor array has that many entries, both indices are below
  the size, and the descriptors from \<open>tail\<close> onwards (cyclically) are \<open>q\<close>, oldest first,
  with \<open>head\<close> \<open>length q\<close> descriptors ahead of \<open>tail\<close>. A ring never holds more than
  \<open>2 ^ k - 1\<close> descriptors. \<open>queued_desc\<close> is the descriptor that a successful
  \<open>skb_ring_queue\<close> writes, \<open>cached_len\<close> its length field.
\<close>

definition skb_holds :: "'p skb_ring \<Rightarrow> nat \<Rightarrow> 'p skb_desc list \<Rightarrow> bool" where
  "skb_holds ring k q \<longleftrightarrow>
     k < 64 \<and> size_skb ring = 2 ^ k \<and>
     unat (tail ring) < 2 ^ k \<and> length q < 2 ^ k \<and>
     unat (head ring) = (unat (tail ring) + length q) mod 2 ^ k \<and>
     (case descs ring of
        None \<Rightarrow> False
      | Some ds \<Rightarrow>
          length ds = 2 ^ k \<and>
          (\<forall>j \<in> {0 ..< length q}. ds ! ((unat (tail ring) + j) mod 2 ^ k) = q ! j))"

definition resident :: "'p skb_desc list \<Rightarrow> bool" where
  "resident q \<longleftrightarrow> (\<forall>d \<in> set q. skb d \<noteq> None)"

definition queued_desc :: "('p \<Rightarrow> sk_buff) \<Rightarrow> 'p \<Rightarrow> 'p skb_desc" where
  "queued_desc h p =
     \<lparr>skb = Some p,
      len = (if vlan_present (h p) then skb_len (h p) + VLAN_HLEN else skb_len (h p))\<rparr>"

definition cached_len :: "('p \<Rightarrow> sk_buff) \<Rightarrow> 'p \<Rightarrow> 32 word" where
  "cached_len h p = skb_len (h p) + (if vlan_present (h p) then VLAN_HLEN else 0)"

section \<open>Concrete rings\<close>

text \<open>
  Index-based rings: a slot table whose array starts at address 4096 with entries of 8
  bytes, a memory with three elements waiting at the addresses 64, 72 and 80 and
  everything else zeroed, and that table initialised with the sizes 0 and 2. Packet
  rings: initialised with the sizes 4, 2 and 3 over fresh descriptor arrays of that
  length from a structure with arbitrary content; packet \<open>p\<close> is \<open>100 * p\<close> bytes long
  and packet 2 carries a tag. \<open>ex_skb_one\<close> is the ring of size 4 after packet 1 has
  been queued.
\<close>

definition ex_table :: "nat mem core_ring" where
  "ex_table = slot_table 4096 8"

definition ex_mem :: "nat mem" where
  "ex_mem = (\<lambda>a. None)(64 := Some 11, 72 := Some 22, 80 := Some 33)"

definition ex_ring0 :: "nat mem core_ring" where
  "ex_ring0 = snd (core_ring_init ex_table 0)"

definition ex_ring2 :: "nat mem core_ring" where
  "ex_ring2 = snd (core_ring_init ex_table 2)"

definition ex_heap :: "nat \<Rightarrow> sk_buff" where
  "ex_heap p = \<lparr>skb_len = of_nat (100 * p), vlan_present = (p = 2)\<rparr>"

definition ex_descs :: "nat skb_desc list" where
  "ex_descs = replicate 4 \<lparr>skb = None, len = 0\<rparr>"

definition ex_skb_raw :: "nat skb_ring" where
  "ex_skb_raw = \<lparr>rlock = Uninitialised, tail = 7, size_skb = 9, descs = None, head = 3,
     wlock = Uninitialised\<rparr>"

definition ex_skb4 :: "nat skb_ring" where
  "ex_skb4 = snd (skb_ring_init ex_skb_raw 4 (Some ex_descs))"

definition ex_skb2 :: "nat skb_ring" where
  "ex_skb2 = snd (skb_ring_init ex_skb_raw 2 (Some (take 2 ex_descs)))"

definition ex_skb3 :: "nat skb_ring" where
  "ex_skb3 = snd (skb_ring_init ex_skb_raw 3 (Some (take 3 ex_descs)))"

definition ex_skb_one :: "nat skb_ring" where
  "ex_skb_one = ex_skb4\<lparr>descs := Some (ex_descs[0 := \<lparr>skb = Some 1, len = 100\<rparr>]), head := 1\<rparr>"

section \<open>Index arithmetic\<close>

lemma sint_succ_le:
  fixes i n :: "32 word"
  assumes "sint i < sint n"
  shows "sint (i + 1) = sint i + 1"
  using assms sint_succ_less[of i n] by (simp add: word_sless_alt)

lemma next_index:
  fixes p sz :: "32 word"
  assumes "0 \<le> sint p" "sint p < sint sz"
  shows "sint (if sz \<le>s p + 1 then 0 else p + 1) = (sint p + 1) mod sint sz"
proof -
  have s: "sint (p + 1) = sint p + 1" using assms by (simp add: sint_succ_le)
  show ?thesis
  proof (cases "sz \<le>s p + 1")
    case True
    then have "sint p + 1 = sint sz" using assms s by (simp add: word_sle_eq)
    then show ?thesis using True by simp
  next
    case False
    then have "sint p + 1 < sint sz" using s by (simp add: word_sle_eq)
    then show ?thesis using False assms s by simp
  qed
qed

lemma sint_of_nat_small:
  assumes "int k < 2 ^ 31"
  shows "sint (of_nat k :: 32 word) = int k"
proof -
  have "sint (of_nat k :: 32 word) = signed_take_bit 31 (int k)"
    by (simp add: signed_of_nat)
  also have "\<dots> = int k"
    using assms by (intro signed_take_bit_int_eq_self) simp_all
  finally show ?thesis .
qed

lemma sint_add_small:
  fixes a b :: "32 word"
  assumes "uint a + uint b < 2 ^ 31"
  shows "sint (a + b) = uint a + uint b"
proof -
  have "uint (a + b) = (uint a + uint b) mod 2 ^ LENGTH(32)" by (rule uint_word_ariths)
  also have "\<dots> = uint a + uint b" using assms by simp
  finally have u: "uint (a + b) = uint a + uint b" .
  have "sint (a + b) = signed_take_bit 31 (uint (a + b))" by (simp add: sint_uint)
  also have "\<dots> = uint a + uint b"
    unfolding u using assms
    by (intro signed_take_bit_int_eq_self) (simp_all add: order_trans [OF _ add_nonneg_nonneg])
  finally show ?thesis .
qed

lemma mod_shift_inj:
  fixes C S j k :: int
  assumes "0 \<le> j" "j < S" "0 \<le> k" "k < S" "(C + j) mod S = (C + k) mod S"
  shows "j = k"
proof -
  have "S dvd (C + j) - (C + k)" using assms(5) by (simp add: mod_eq_dvd_iff)
  then have d: "S dvd j - k" by simp
  have "\<bar>j - k\<bar> < S" using assms by auto
  show ?thesis
  proof (rule ccontr)
    assume "j \<noteq> k"
    then have "j - k \<noteq> 0" by simp
    from dvd_imp_le_int [OF this d] \<open>\<bar>j - k\<bar> < S\<close> assms show False by simp
  qed
qed

lemma mod_succ_shift:
  fixes C S j :: int
  shows "((C + 1) mod S + j) mod S = (C + (j + 1)) mod S"
proof -
  have "((C + 1) mod S + j) mod S = ((C + 1) + j) mod S" by (rule mod_add_left_eq)
  also have "\<dots> = (C + (j + 1)) mod S" by (simp add: ac_simps)
  finally show ?thesis .
qed

lemma mod_shift_inj_nat:
  fixes T S j n :: nat
  assumes "j < S" "n < S" "(T + j) mod S = (T + n) mod S"
  shows "j = n"
proof -
  have "int ((T + j) mod S) = int ((T + n) mod S)" using assms(3) by simp
  then have "(int T + int j) mod int S = (int T + int n) mod int S"
    by (simp add: zmod_int)
  then have "int j = int n"
    using assms(1,2) by (intro mod_shift_inj [of "int j" "int S" "int n" "int T"]) simp_all
  then show ?thesis by simp
qed

lemma mod_succ_shift_nat:
  fixes T S n :: nat
  shows "((T + 1) mod S + n) mod S = (T + Suc n) mod S"
proof -
  have "((T + 1) mod S + n) mod S = ((T + 1) + n) mod S" by (rule mod_add_left_eq)
  then show ?thesis by simp
qed

lemma uint_and_pow2_mask:
  fixes w :: "64 word"
  shows "uint (w AND (2 ^ k - 1)) = uint w mod 2 ^ k"
proof -
  have "w AND (2 ^ k - 1) = take_bit k w"
    by (simp add: take_bit_eq_mask mask_eq_exp_minus_1)
  then have "uint (w AND (2 ^ k - 1)) = uint (take_bit k w)" by simp
  also have "\<dots> = take_bit k (uint w)" by (rule unsigned_take_bit_eq)
  also have "\<dots> = uint w mod 2 ^ k" by (rule take_bit_eq_mod)
  finally show ?thesis .
qed

lemma mod_pow2_word:
  fixes x :: int
  assumes "k \<le> n"
  shows "(x mod 2 ^ n) mod 2 ^ k = x mod 2 ^ k"
proof -
  have "(2::int) ^ k dvd 2 ^ n" using assms by (rule le_imp_power_dvd)
  then show ?thesis by (rule mod_mod_cancel)
qed

lemma uint_sub_mod:
  fixes a b :: "64 word"
  assumes "k \<le> 64"
  shows "uint (a - b) mod 2 ^ k = (uint a - uint b) mod 2 ^ k"
proof -
  have "uint (a - b) = (uint a - uint b) mod 2 ^ LENGTH(64)" by (rule uint_word_ariths)
  then have "uint (a - b) mod 2 ^ k = ((uint a - uint b) mod 2 ^ LENGTH(64)) mod 2 ^ k"
    by (rule arg_cong)
  also have "\<dots> = (uint a - uint b) mod 2 ^ k"
    by (rule mod_pow2_word) (use assms in simp)
  finally show ?thesis .
qed

lemma uint_add_mod:
  fixes a b :: "64 word"
  assumes "k \<le> 64"
  shows "uint (a + b) mod 2 ^ k = (uint a + uint b) mod 2 ^ k"
proof -
  have "uint (a + b) = (uint a + uint b) mod 2 ^ LENGTH(64)" by (rule uint_word_ariths)
  then have "uint (a + b) mod 2 ^ k = ((uint a + uint b) mod 2 ^ LENGTH(64)) mod 2 ^ k"
    by (rule arg_cong)
  also have "\<dots> = (uint a + uint b) mod 2 ^ k"
    by (rule mod_pow2_word) (use assms in simp)
  finally show ?thesis .
qed

lemma uint_CIRC_CNT:
  assumes "k \<le> 64"
  shows "uint (CIRC_CNT head' tail' (2 ^ k)) = (uint head' - uint tail') mod 2 ^ k"
  using uint_sub_mod [OF assms, of head' tail']
  by (simp add: CIRC_CNT_def uint_and_pow2_mask)

lemma uint_next_index:
  assumes "k \<le> 64"
  shows "uint ((i + 1) AND ((2 ^ k :: 64 word) - 1)) = (uint i + 1) mod 2 ^ k"
  using uint_add_mod [OF assms, of i 1]
  by (simp add: uint_and_pow2_mask)

lemma unat_next_index:
  assumes "k \<le> 64"
  shows "unat ((i + 1) AND ((2 ^ k :: 64 word) - 1)) = (unat i + 1) mod 2 ^ k"
proof -
  have "int (unat ((i + 1) AND ((2 ^ k :: 64 word) - 1))) = (uint i + 1) mod 2 ^ k"
    using uint_next_index [OF assms, of i] by (simp only: uint_nat)
  also have "\<dots> = int ((unat i + 1) mod 2 ^ k)"
    by (simp add: zmod_int add.commute)
  finally show ?thesis by (rule int_int_eq [THEN iffD1])
qed

lemma uint_CIRC_SPACE:
  assumes "k \<le> 64"
  shows "uint (CIRC_SPACE head' tail' (2 ^ k)) = (uint tail' - (uint head' + 1)) mod 2 ^ k"
proof -
  have "uint (CIRC_SPACE head' tail' (2 ^ k)) = (uint tail' - uint (head' + 1)) mod 2 ^ k"
    using assms by (simp add: CIRC_SPACE_def uint_CIRC_CNT)
  also have "\<dots> = (uint tail' - uint (head' + 1) mod 2 ^ k) mod 2 ^ k"
    by (simp add: mod_diff_right_eq)
  also have "\<dots> = (uint tail' - (uint head' + 1) mod 2 ^ k) mod 2 ^ k"
    using uint_add_mod [OF assms, of head' 1] by simp
  also have "\<dots> = (uint tail' - (uint head' + 1)) mod 2 ^ k"
    by (simp add: mod_diff_right_eq)
  finally show ?thesis .
qed

lemma uint_pow2_64:
  assumes "k < 64"
  shows "uint (2 ^ k :: 64 word) = 2 ^ k"
proof -
  have "(2 ^ k :: 64 word) \<noteq> 0" using assms by simp
  then have "(0 :: 64 word) < 2 ^ k" by (simp only: word_neq_0_conv)
  then show ?thesis by (rule uint_2p)
qed

lemma unat_pow2_64:
  assumes "k < 64"
  shows "unat (2 ^ k :: 64 word) = 2 ^ k"
proof -
  have "int (unat (2 ^ k :: 64 word)) = int (2 ^ k)"
    using uint_pow2_64 [OF assms] by (simp only: uint_nat of_nat_power of_nat_numeral)
  then show ?thesis by (rule int_int_eq [THEN iffD1])
qed

lemma sint_ucast_small:
  fixes w :: "64 word"
  assumes "uint w < 2 ^ 31"
  shows "sint (ucast w :: 32 word) = uint w"
proof -
  have "uint (ucast w :: 32 word) = take_bit 32 (uint w)"
    by (simp add: unsigned_ucast_eq unsigned_take_bit_eq)
  also have "\<dots> = uint w"
    using assms by (intro take_bit_int_eq_self) simp_all
  finally have u: "uint (ucast w :: 32 word) = uint w" .
  have "sint (ucast w :: 32 word) = signed_take_bit 31 (uint (ucast w :: 32 word))"
    by (simp add: sint_uint)
  also have "\<dots> = uint w"
    unfolding u using assms
    by (intro signed_take_bit_int_eq_self) (simp_all add: order_trans [OF _ uint_ge_0])
  finally show ?thesis .
qed

lemma word_ge_1_unat: "(1 \<le> (w :: 64 word)) = (1 \<le> unat w)"
  by (simp add: word_le_nat_alt)

section \<open>Steps of the index-based ring over the slot table\<close>

lemma slot_produce_eq:
  assumes "uses_slot_table r base"
  shows "u_core_ring_produce r m ptr =
     (if size_cr r = 0 \<or> m (base + sint (producer r) * sint (entry_size r)) \<noteq> None
      then (- ENOSPC, r, m)
      else (0, r\<lparr>producer := (if size_cr r \<le>s producer r + 1 then 0 else producer r + 1)\<rparr>,
            m(base + sint (producer r) * sint (entry_size r) := m ptr)))"
  using assms
  by (simp add: u_core_ring_produce_def uses_slot_table_def slot_seek_def slot_valid_def
      slot_copy_def Let_def)

lemma slot_consume_eq:
  assumes "uses_slot_table r base"
  shows "u_core_ring_consume r m ptr =
     (if m (base + sint (consumer r) * sint (entry_size r)) \<noteq> None
      then (ptr, r\<lparr>consumer := (if size_cr r \<le>s consumer r + 1 then 0 else consumer r + 1)\<rparr>,
            (m(ptr := m (base + sint (consumer r) * sint (entry_size r))))
              (base + sint (consumer r) * sint (entry_size r) := None))
      else (NULL, r, m))"
  using assms
  by (simp add: u_core_ring_consume_def u_core_ring_discard_one_def uses_slot_table_def
      slot_seek_def slot_valid_def slot_copy_def slot_zero_def Let_def)

lemma cr_holds_producer_cell:
  assumes "cr_holds r m base q"
  shows "m (base + sint (producer r) * sint (entry_size r)) =
     (if int (length q) < sint (size_cr r) then None else Some (q ! 0))"
proof -
  let ?S = "sint (size_cr r)" and ?C = "sint (consumer r)" and ?n = "length q"
  have inv: "\<forall>j \<in> {0 ..< nat ?S}. cell r m base j = (if j < ?n then Some (q ! j) else None)"
    and p: "sint (producer r) = (?C + int ?n) mod ?S"
    and c: "0 \<le> ?C" "?C < ?S" and n: "int ?n \<le> ?S"
    using assms by (auto simp: cr_holds_def)
  show ?thesis
  proof (cases "int ?n < ?S")
    case True
    then have "?n \<in> {0 ..< nat ?S}" by auto
    with inv have "cell r m base ?n = None" by auto
    then show ?thesis using True p by (simp add: cell_def)
  next
    case False
    then have e: "int ?n = ?S" using n by simp
    then have "sint (producer r) = ?C" using p c by simp
    moreover have "0 \<in> {0 ..< nat ?S}" using c by auto
    with inv have "cell r m base 0 = (if 0 < ?n then Some (q ! 0) else None)" by blast
    moreover have "0 < ?n" using e c by auto
    ultimately show ?thesis using False c by (simp add: cell_def)
  qed
qed

lemma cr_holds_producer_range:
  assumes "cr_holds r m base q"
  shows "0 \<le> sint (producer r)" "sint (producer r) < sint (size_cr r)"
proof -
  have "0 < sint (size_cr r)"
    and "sint (producer r) = (sint (consumer r) + int (length q)) mod sint (size_cr r)"
    using assms by (auto simp: cr_holds_def)
  then show "0 \<le> sint (producer r)" "sint (producer r) < sint (size_cr r)" by simp_all
qed

lemma cr_holds_count:
  assumes "cr_holds r m base q"
  shows "int (length q) mod sint (size_cr r) =
           (sint (producer r) - sint (consumer r)) mod sint (size_cr r)"
proof -
  let ?S = "sint (size_cr r)" and ?C = "sint (consumer r)"
  have p: "sint (producer r) = (?C + int (length q)) mod ?S"
    using assms by (simp add: cr_holds_def)
  have "(sint (producer r) - ?C) mod ?S = ((?C + int (length q)) mod ?S - ?C) mod ?S"
    using p by simp
  also have "\<dots> = ((?C + int (length q)) - ?C) mod ?S" by (rule mod_diff_left_eq)
  finally show ?thesis by simp
qed

lemma cr_produce_full:
  assumes "cr_holds r m base q" "int (length q) = sint (size_cr r)"
  shows "u_core_ring_produce r m ptr = (- ENOSPC, r, m)"
proof -
  have "uses_slot_table r base" using assms by (simp add: cr_holds_def)
  from slot_produce_eq [OF this] cr_holds_producer_cell [OF assms(1)] assms(2)
  show ?thesis by simp
qed

lemma cr_produce_ok:
  assumes h: "cr_holds r m base q" and lt: "int (length q) < sint (size_cr r)"
    and v: "m ptr = Some v"
  defines "r' \<equiv> r\<lparr>producer := (if size_cr r \<le>s producer r + 1 then 0 else producer r + 1)\<rparr>"
  defines "m' \<equiv> m(base + sint (producer r) * sint (entry_size r) := Some v)"
  shows "u_core_ring_produce r m ptr = (0, r', m')" and "cr_holds r' m' base (q @ [v])"
proof -
  let ?S = "sint (size_cr r)" and ?C = "sint (consumer r)" and ?n = "length q"
  let ?es = "sint (entry_size r)"
  have t: "uses_slot_table r base" and es: "entry_size r \<noteq> 0"
    and inv: "\<forall>j \<in> {0 ..< nat ?S}. cell r m base j = (if j < ?n then Some (q ! j) else None)"
    and p: "sint (producer r) = (?C + int ?n) mod ?S"
    and c: "0 \<le> ?C" "?C < ?S" and n: "int ?n \<le> ?S"
    using h by (auto simp: cr_holds_def)
  have es0: "?es \<noteq> 0" using es by (simp add: signed_eq_0_iff)
  have S: "0 < ?S" using c by simp
  have pr: "0 \<le> sint (producer r)" "sint (producer r) < ?S"
    using p S by simp_all
  have szne: "size_cr r \<noteq> 0" using S by auto
  from slot_produce_eq [OF t] cr_holds_producer_cell [OF h] lt v szne
  show "u_core_ring_produce r m ptr = (0, r', m')"
    by (simp add: r'_def m'_def)
  have p': "sint (producer r') = (?C + int (length (q @ [v]))) mod ?S"
  proof -
    have "sint (producer r') = (sint (producer r) + 1) mod ?S"
      unfolding r'_def using next_index [OF pr] by simp
    also have "\<dots> = ((?C + int ?n) mod ?S + 1) mod ?S" using p by simp
    also have "\<dots> = (?C + int ?n + 1) mod ?S" by (simp add: mod_add_left_eq)
    finally show ?thesis by (simp add: ac_simps)
  qed
  have cells: "cell r' m' base j = (if j < length (q @ [v]) then Some ((q @ [v]) ! j) else None)"
    if j: "j \<in> {0 ..< nat ?S}" for j
  proof -
    have old: "cell r m base j = (if j < ?n then Some (q ! j) else None)" using inv j by blast
    have same: "(?C + int j) mod ?S = (?C + int ?n) mod ?S \<longleftrightarrow> j = ?n"
    proof
      assume "(?C + int j) mod ?S = (?C + int ?n) mod ?S"
      then have "int j = int ?n"
        using j lt by (intro mod_shift_inj [of "int j" ?S "int ?n" ?C]) auto
      then show "j = ?n" by simp
    qed simp
    have "cell r' m' base j = (if j = ?n then Some v else cell r m base j)"
      using same es0 p by (auto simp: cell_def r'_def m'_def)
    then show ?thesis using old by (auto simp: nth_append)
  qed
  show "cr_holds r' m' base (q @ [v])"
    unfolding cr_holds_def
  proof (intro conjI ballI)
    show "uses_slot_table r' base" using t by (simp add: uses_slot_table_def r'_def)
    show "entry_size r' \<noteq> 0" using es by (simp add: r'_def)
    show "0 \<le> sint (consumer r')" "sint (consumer r') < sint (size_cr r')"
      using c by (simp_all add: r'_def)
    show "int (length (q @ [v])) \<le> sint (size_cr r')" using lt by (simp add: r'_def)
    show "sint (producer r') = (sint (consumer r') + int (length (q @ [v]))) mod sint (size_cr r')"
      using p' by (simp add: r'_def)
    show "cell r' m' base j = (if j < length (q @ [v]) then Some ((q @ [v]) ! j) else None)"
      if "j \<in> {0 ..< nat (sint (size_cr r'))}" for j
      using cells [of j] that by (simp add: r'_def)
  qed
qed

lemma cr_consume_empty:
  assumes "cr_holds r m base []"
  shows "u_core_ring_consume r m ptr = (NULL, r, m)"
proof -
  let ?S = "sint (size_cr r)" and ?C = "sint (consumer r)"
  have t: "uses_slot_table r base"
    and inv: "\<forall>j \<in> {0 ..< nat ?S}. cell r m base j = None"
    and c: "0 \<le> ?C" "?C < ?S"
    using assms by (auto simp: cr_holds_def)
  have "0 \<in> {0 ..< nat ?S}" using c by auto
  with inv have "cell r m base 0 = None" by blast
  then have "m (base + ?C * sint (entry_size r)) = None" using c by (simp add: cell_def)
  with slot_consume_eq [OF t] show ?thesis by simp
qed

lemma cr_holds_empty_invalid:
  assumes "cr_holds r m base []"
  shows "\<not> valid_fn r m (consumer r)"
proof
  assume "valid_fn r m (consumer r)"
  then have "fst (u_core_ring_consume r m 1) = 1"
    by (simp add: u_core_ring_consume_def split: prod.splits)
  then show False using cr_consume_empty [OF assms, of 1] by (simp add: NULL_def)
qed

lemma cell_in_slot_addrs:
  assumes "0 < sint (size_cr r)"
  shows "base + (k mod sint (size_cr r)) * sint (entry_size r) \<in> slot_addrs r base"
proof -
  let ?S = "sint (size_cr r)"
  have "0 \<le> k mod ?S" "k mod ?S < ?S" using assms by simp_all
  then have "nat (k mod ?S) \<in> {0 ..< nat ?S}" "int (nat (k mod ?S)) = k mod ?S" by auto
  then show ?thesis unfolding slot_addrs_def
    by (intro image_eqI [where x = "nat (k mod ?S)"]) simp_all
qed

lemma index_in_slot_addrs:
  assumes "0 \<le> sint i" "sint i < sint (size_cr r)"
  shows "base + sint i * sint (entry_size r) \<in> slot_addrs r base"
proof -
  have "base + (sint i mod sint (size_cr r)) * sint (entry_size r) \<in> slot_addrs r base"
    using assms by (intro cell_in_slot_addrs) simp
  then show ?thesis using assms by simp
qed

lemma slot_addrs_cong:
  "size_cr r' = size_cr r \<Longrightarrow> entry_size r' = entry_size r \<Longrightarrow>
   slot_addrs r' base = slot_addrs r base"
  by (simp add: slot_addrs_def)

lemma cr_consume_ok:
  assumes h: "cr_holds r m base (v # q)" and out: "ptr \<notin> slot_addrs r base"
  defines "r' \<equiv> r\<lparr>consumer := (if size_cr r \<le>s consumer r + 1 then 0 else consumer r + 1)\<rparr>"
  defines "m' \<equiv> (m(ptr := Some v))(base + sint (consumer r) * sint (entry_size r) := None)"
  shows "u_core_ring_consume r m ptr = (ptr, r', m')" and "cr_holds r' m' base q"
proof -
  let ?S = "sint (size_cr r)" and ?C = "sint (consumer r)" and ?n = "length q"
  let ?es = "sint (entry_size r)"
  have t: "uses_slot_table r base" and es: "entry_size r \<noteq> 0"
    and inv: "\<forall>j \<in> {0 ..< nat ?S}.
        cell r m base j = (if j < Suc ?n then Some ((v # q) ! j) else None)"
    and p: "sint (producer r) = (?C + int (Suc ?n)) mod ?S"
    and c: "0 \<le> ?C" "?C < ?S" and n: "int (Suc ?n) \<le> ?S"
    using h by (auto simp: cr_holds_def)
  have es0: "?es \<noteq> 0" using es by (simp add: signed_eq_0_iff)
  have S: "0 < ?S" using c by simp
  have "0 \<in> {0 ..< nat ?S}" using c by auto
  with inv have "cell r m base 0 = Some v" by auto
  then have hd: "m (base + ?C * ?es) = Some v" using c by (simp add: cell_def)
  with slot_consume_eq [OF t]
  show "u_core_ring_consume r m ptr = (ptr, r', m')" by (simp add: r'_def m'_def)
  have c': "sint (consumer r') = (?C + 1) mod ?S"
    unfolding r'_def using next_index [OF c] by simp
  have cells: "cell r' m' base j = (if j < ?n then Some (q ! j) else None)"
    if j: "j \<in> {0 ..< nat ?S}" for j
  proof -
    have idx: "((?C + 1) mod ?S + int j) mod ?S = (?C + int (Suc j)) mod ?S"
      using mod_succ_shift [of ?C ?S "int j"] by (simp add: ac_simps)
    show ?thesis
    proof (cases "Suc j < nat ?S")
      case True
      then have "Suc j \<in> {0 ..< nat ?S}" by simp
      with inv have old: "cell r m base (Suc j) = (if j < ?n then Some (q ! j) else None)"
        by auto
      have "(?C + int (Suc j)) mod ?S \<noteq> (?C + 0) mod ?S"
      proof
        assume "(?C + int (Suc j)) mod ?S = (?C + 0) mod ?S"
        then have "int (Suc j) = 0"
          using True S by (intro mod_shift_inj [of "int (Suc j)" ?S 0 ?C]) auto
        then show False by simp
      qed
      then have ne: "(?C + int (Suc j)) mod ?S \<noteq> ?C" using c by simp
      have "base + ((?C + int (Suc j)) mod ?S) * ?es \<in> slot_addrs r base"
        by (rule cell_in_slot_addrs [OF S])
      with out have neq: "base + ((?C + int (Suc j)) mod ?S) * ?es \<noteq> ptr" by auto
      have "cell r' m' base j = m' (base + ((?C + int (Suc j)) mod ?S) * ?es)"
        using c' idx by (simp add: cell_def r'_def)
      also have "\<dots> = m (base + ((?C + int (Suc j)) mod ?S) * ?es)"
        using ne neq es0 by (simp add: m'_def)
      also have "\<dots> = cell r m base (Suc j)" by (simp add: cell_def)
      finally show ?thesis using old by simp
    next
      case False
      then have e: "int (Suc j) = ?S" using j by auto
      then have "(?C + int (Suc j)) mod ?S = ?C" using c by simp
      then have "cell r' m' base j = m' (base + ?C * ?es)"
        using c' idx by (simp add: cell_def r'_def)
      then have "cell r' m' base j = None" by (simp add: m'_def)
      moreover have "\<not> j < ?n" using e n by auto
      ultimately show ?thesis by simp
    qed
  qed
  have p': "sint (producer r') = (sint (consumer r') + int ?n) mod ?S"
  proof -
    have "(sint (consumer r') + int ?n) mod ?S = ((?C + 1) mod ?S + int ?n) mod ?S"
      using c' by simp
    also have "\<dots> = (?C + int (Suc ?n)) mod ?S"
      using mod_succ_shift [of ?C ?S "int ?n"] by (simp add: ac_simps)
    finally show ?thesis using p by (simp add: r'_def)
  qed
  have cr: "0 \<le> sint (consumer r')" "sint (consumer r') < ?S" using c' S by simp_all
  show "cr_holds r' m' base q"
    unfolding cr_holds_def
  proof (intro conjI ballI)
    show "uses_slot_table r' base" using t by (simp add: uses_slot_table_def r'_def)
    show "entry_size r' \<noteq> 0" using es by (simp add: r'_def)
    show "0 \<le> sint (consumer r')" by (rule cr)
    show "sint (consumer r') < sint (size_cr r')" using cr by (simp add: r'_def)
    show "int (length q) \<le> sint (size_cr r')" using n by (simp add: r'_def)
    show "sint (producer r') = (sint (consumer r') + int (length q)) mod sint (size_cr r')"
      using p' by (simp add: r'_def)
    show "cell r' m' base j = (if j < length q then Some (q ! j) else None)"
      if "j \<in> {0 ..< nat (sint (size_cr r'))}" for j
      using cells [of j] that by (simp add: r'_def)
  qed
qed

lemma fresh_ring_holds:
  assumes "0 < sint sz" "es \<noteq> 0"
    and "\<forall>a \<in> (\<lambda>i. base + int i * sint es) ` {0 ..< nat (sint sz)}. m a = None"
  shows "cr_holds (snd (core_ring_init (slot_table base es) sz)) m base []"
proof -
  let ?r = "snd (core_ring_init (slot_table base es) sz)"
  have f: "consumer ?r = 0" "producer ?r = 0" "size_cr ?r = sz" "entry_size ?r = es"
    by (simp_all add: core_ring_init_def u_core_ring_set_size_def slot_table_def)
  have t: "uses_slot_table ?r base"
    by (simp add: uses_slot_table_def core_ring_init_def u_core_ring_set_size_def slot_table_def)
  have "cell ?r m base j = None" if "j \<in> {0 ..< nat (sint sz)}" for j
  proof -
    have "int j mod sint sz = int j" using that by auto
    moreover have "m (base + int j * sint es) = None" using assms(3) that by blast
    ultimately show ?thesis by (simp add: cell_def f)
  qed
  then show ?thesis using assms(1,2) t by (simp add: cr_holds_def f)
qed

section \<open>Runs of the index-based ring\<close>

lemma map2_the:
  assumes "\<forall>e \<in> set ps. m e \<noteq> None"
  shows "map2 (\<lambda>p v. Element p (Some v)) os (map (\<lambda>a. the (m a)) ps) =
         map2 (\<lambda>p e. Element p (m e)) os ps"
  using assms
proof (induction ps arbitrary: os)
  case Nil
  then show ?case by simp
next
  case (Cons e ps)
  then show ?case by (cases os) auto
qed

lemma produce_run:
  assumes "cr_holds r m base q" "\<forall>p \<in> set ps. m p \<noteq> None"
    and "core_ring_run obs r m (map Produce ps) = (rs, r1, m1)"
    and "\<forall>x \<in> set rs. x = Ret 0"
  shows "cr_holds r1 m1 base (q @ map (\<lambda>a. the (m a)) ps) \<and>
         size_cr r1 = size_cr r \<and> entry_size r1 = entry_size r"
  using assms
proof (induction ps arbitrary: r m q rs)
  case Nil
  then show ?case by simp
next
  case (Cons p ps)
  obtain v where v: "m p = Some v" using Cons.prems(2) by auto
  show ?case
  proof (cases "int (length q) < sint (size_cr r)")
    case False
    then have "int (length q) = sint (size_cr r)"
      using Cons.prems(1) by (simp add: cr_holds_def)
    from cr_produce_full [OF Cons.prems(1) this, of p] Cons.prems(3,4)
    show ?thesis by (auto simp: ENOSPC_def split: prod.splits)
  next
    case True
    define r' where
      "r' = r\<lparr>producer := (if size_cr r \<le>s producer r + 1 then 0 else producer r + 1)\<rparr>"
    define m' where "m' = m(base + sint (producer r) * sint (entry_size r) := Some v)"
    have step: "u_core_ring_produce r m p = (0, r', m')"
      and h': "cr_holds r' m' base (q @ [v])"
      using cr_produce_ok [OF Cons.prems(1) True v] by (simp_all add: r'_def m'_def)
    have fr: "size_cr r' = size_cr r" "entry_size r' = entry_size r"
      by (simp_all add: r'_def)
    have none: "m (base + sint (producer r) * sint (entry_size r)) = None"
      using cr_holds_producer_cell [OF Cons.prems(1)] True by simp
    have keep: "m' a = m a" if "a \<in> set ps" for a
      using Cons.prems(2) none that by (auto simp: m'_def)
    then have src: "\<forall>a \<in> set ps. m' a \<noteq> None" using Cons.prems(2) by simp
    obtain rs' where run: "core_ring_run obs r' m' (map Produce ps) = (rs', r1, m1)"
      and rs: "rs = Ret 0 # rs'"
      using Cons.prems(3) step by (auto split: prod.splits)
    have ok: "\<forall>x \<in> set rs'. x = Ret 0" using Cons.prems(4) rs by simp
    from Cons.IH [OF h' src run ok]
    have "cr_holds r1 m1 base ((q @ [v]) @ map (\<lambda>a. the (m' a)) ps)"
      and sz: "size_cr r1 = size_cr r'" "entry_size r1 = entry_size r'" by simp_all
    moreover have "map (\<lambda>a. the (m' a)) ps = map (\<lambda>a. the (m a)) ps"
      using keep by (simp cong: map_cong)
    ultimately show ?thesis using v fr by simp
  qed
qed

lemma produce_run_fits:
  assumes "cr_holds r m base q" "\<forall>p \<in> set ps. m p \<noteq> None"
    and "int (length q + length ps) \<le> sint (size_cr r)"
  shows "\<exists>r1 m1. core_ring_run obs r m (map Produce ps) =
           (replicate (length ps) (Ret 0), r1, m1)"
  using assms
proof (induction ps arbitrary: r m q)
  case Nil
  then show ?case by simp
next
  case (Cons p ps)
  obtain v where v: "m p = Some v" using Cons.prems(2) by auto
  have lt: "int (length q) < sint (size_cr r)" using Cons.prems(3) by simp
  define r' where
    "r' = r\<lparr>producer := (if size_cr r \<le>s producer r + 1 then 0 else producer r + 1)\<rparr>"
  define m' where "m' = m(base + sint (producer r) * sint (entry_size r) := Some v)"
  have step: "u_core_ring_produce r m p = (0, r', m')"
    and h': "cr_holds r' m' base (q @ [v])"
    using cr_produce_ok [OF Cons.prems(1) lt v] by (simp_all add: r'_def m'_def)
  have none: "m (base + sint (producer r) * sint (entry_size r)) = None"
    using cr_holds_producer_cell [OF Cons.prems(1)] lt by simp
  have src: "\<forall>a \<in> set ps. m' a \<noteq> None" using Cons.prems(2) none by (auto simp: m'_def)
  have "int (length (q @ [v]) + length ps) \<le> sint (size_cr r')"
    using Cons.prems(3) by (simp add: r'_def)
  from Cons.IH [OF h' src this]
  obtain r1 m1 where "core_ring_run obs r' m' (map Produce ps) =
      (replicate (length ps) (Ret 0), r1, m1)" by blast
  with step show ?case by simp
qed

lemma consume_run:
  assumes "cr_holds r m base q" "length os \<le> length q"
    and "\<forall>p \<in> set os. p \<notin> slot_addrs r base \<and> p \<noteq> NULL"
  shows "\<exists>r1 m1. core_ring_run load r m (map Consume os) =
           (map2 (\<lambda>p v. Element p (Some v)) os q, r1, m1) \<and>
         cr_holds r1 m1 base (drop (length os) q) \<and>
         size_cr r1 = size_cr r \<and> entry_size r1 = entry_size r"
  using assms
proof (induction os arbitrary: r m q)
  case Nil
  then show ?case by simp
next
  case (Cons p os)
  obtain v q' where q: "q = v # q'" using Cons.prems(2) by (cases q) auto
  define r' where
    "r' = r\<lparr>consumer := (if size_cr r \<le>s consumer r + 1 then 0 else consumer r + 1)\<rparr>"
  define m' where
    "m' = (m(p := Some v))(base + sint (consumer r) * sint (entry_size r) := None)"
  have out: "p \<notin> slot_addrs r base" "p \<noteq> NULL" using Cons.prems(3) by simp_all
  have step: "u_core_ring_consume r m p = (p, r', m')"
    and h': "cr_holds r' m' base q'"
    using cr_consume_ok [of r m base v q' p] Cons.prems(1) out q
    by (simp_all add: r'_def m'_def)
  have fr: "size_cr r' = size_cr r" "entry_size r' = entry_size r"
    by (simp_all add: r'_def)
  have c: "0 \<le> sint (consumer r)" "sint (consumer r) < sint (size_cr r)"
    using Cons.prems(1) by (simp_all add: cr_holds_def)
  have "base + (sint (consumer r) mod sint (size_cr r)) * sint (entry_size r)
          \<in> slot_addrs r base"
    using c by (intro cell_in_slot_addrs) simp
  then have "base + sint (consumer r) * sint (entry_size r) \<in> slot_addrs r base"
    using c by simp
  then have got: "load m' p = Some v" using out by (auto simp: m'_def load_def)
  have sa: "slot_addrs r' base = slot_addrs r base" using fr by (rule slot_addrs_cong)
  have outs: "\<forall>p \<in> set os. p \<notin> slot_addrs r' base \<and> p \<noteq> NULL"
    using Cons.prems(3) sa by simp
  have len: "length os \<le> length q'" using Cons.prems(2) q by simp
  from Cons.IH [OF h' len outs]
  obtain r1 m1 where
    run: "core_ring_run load r' m' (map Consume os) =
           (map2 (\<lambda>p v. Element p (Some v)) os q', r1, m1)"
    and h1: "cr_holds r1 m1 base (drop (length os) q')"
    and sz: "size_cr r1 = size_cr r'" "entry_size r1 = entry_size r'"
    by blast
  have "core_ring_run load r m (map Consume (p # os)) =
           (map2 (\<lambda>p v. Element p (Some v)) (p # os) q, r1, m1)"
    using step run got out q by simp
  then show ?case using h1 sz fr q by auto
qed

lemma consume_run_mem:
  assumes "cr_holds r m base q" "length os \<le> length q"
    and "\<forall>p \<in> set os. p \<notin> slot_addrs r base \<and> p \<noteq> NULL"
    and "core_ring_run load r m (map Consume os) = (rs, r1, m1)"
  shows "(\<forall>a. a \<notin> set os \<and> a \<notin> slot_addrs r base \<longrightarrow> m1 a = m a) \<and>
         (distinct os \<longrightarrow> (\<forall>j < length os. m1 (os ! j) = Some (q ! j)))"
  using assms
proof (induction os arbitrary: r m q rs)
  case Nil
  then show ?case by simp
next
  case (Cons p os)
  obtain v q' where q: "q = v # q'" using Cons.prems(2) by (cases q) auto
  define r' where
    "r' = r\<lparr>consumer := (if size_cr r \<le>s consumer r + 1 then 0 else consumer r + 1)\<rparr>"
  define m' where
    "m' = (m(p := Some v))(base + sint (consumer r) * sint (entry_size r) := None)"
  have out: "p \<notin> slot_addrs r base" "p \<noteq> NULL" using Cons.prems(3) by simp_all
  have step: "u_core_ring_consume r m p = (p, r', m')"
    and h': "cr_holds r' m' base q'"
    using cr_consume_ok [of r m base v q' p] Cons.prems(1) out q
    by (simp_all add: r'_def m'_def)
  have fr: "size_cr r' = size_cr r" "entry_size r' = entry_size r"
    by (simp_all add: r'_def)
  have sa: "slot_addrs r' base = slot_addrs r base" using fr by (rule slot_addrs_cong)
  have c: "0 \<le> sint (consumer r)" "sint (consumer r) < sint (size_cr r)"
    using Cons.prems(1) by (simp_all add: cr_holds_def)
  have slot: "base + sint (consumer r) * sint (entry_size r) \<in> slot_addrs r base"
    using c by (rule index_in_slot_addrs)
  have m'p: "m' p = Some v" using out slot by (auto simp: m'_def)
  have m'a: "m' a = m a" if "a \<noteq> p" "a \<notin> slot_addrs r base" for a
    using that slot by (auto simp: m'_def)
  have outs: "\<forall>p \<in> set os. p \<notin> slot_addrs r' base \<and> p \<noteq> NULL"
    using Cons.prems(3) sa by simp
  have len: "length os \<le> length q'" using Cons.prems(2) q by simp
  obtain rs' where run: "core_ring_run load r' m' (map Consume os) = (rs', r1, m1)"
    using Cons.prems(4) step by (auto split: prod.splits)
  from Cons.IH [OF h' len outs run]
  have frame: "\<And>a. a \<notin> set os \<Longrightarrow> a \<notin> slot_addrs r base \<Longrightarrow> m1 a = m' a"
    and cont: "distinct os \<Longrightarrow> (\<forall>j < length os. m1 (os ! j) = Some (q' ! j))"
    using sa by simp_all
  show ?case
  proof (intro conjI allI impI)
    fix a assume "a \<notin> set (p # os) \<and> a \<notin> slot_addrs r base"
    then show "m1 a = m a" using frame [of a] m'a [of a] by simp
  next
    fix j assume d: "distinct (p # os)" and j: "j < length (p # os)"
    show "m1 ((p # os) ! j) = Some (q ! j)"
    proof (cases j)
      case 0
      have "m1 p = m' p" using d out by (intro frame) simp_all
      then show ?thesis using 0 m'p q by simp
    next
      case (Suc i)
      then show ?thesis using cont d j q by simp
    qed
  qed
qed

lemma op_ok_frame:
  assumes "op_ok r base m op" "slot_addrs r' base = slot_addrs r base"
    and "\<And>a. a \<notin> slot_addrs r base \<Longrightarrow> m a \<noteq> None \<Longrightarrow> m' a \<noteq> None"
  shows "op_ok r' base m' op"
  using assms by (cases op) auto

lemma run_holds:
  assumes "cr_holds r m base q" "\<forall>op \<in> set ops. op_ok r base m op"
    and "core_ring_run load r m ops = (rs, r1, m1)"
  shows "\<exists>q1. cr_holds r1 m1 base q1 \<and> int (length q1) = int (length q) + balance rs \<and>
           size_cr r1 = size_cr r \<and> entry_size r1 = entry_size r"
  using assms
proof (induction ops arbitrary: r m q rs)
  case Nil
  then show ?case by auto
next
  case (Cons op ops)
  show ?case
  proof (cases op)
    case (Produce p)
    then have ok: "p \<notin> slot_addrs r base" "m p \<noteq> None" using Cons.prems(2) by simp_all
    then obtain v where v: "m p = Some v" by auto
    show ?thesis
    proof (cases "int (length q) < sint (size_cr r)")
      case False
      then have "int (length q) = sint (size_cr r)"
        using Cons.prems(1) by (simp add: cr_holds_def)
      from cr_produce_full [OF Cons.prems(1) this, of p]
      have step: "u_core_ring_produce r m p = (- ENOSPC, r, m)" .
      then obtain rs' where run: "core_ring_run load r m ops = (rs', r1, m1)"
        and rs: "rs = Ret (- ENOSPC) # rs'"
        using Cons.prems(3) Produce by (auto split: prod.splits)
      have "\<forall>op \<in> set ops. op_ok r base m op" using Cons.prems(2) by simp
      from Cons.IH [OF Cons.prems(1) this run] rs show ?thesis
        by (auto simp: ENOSPC_def)
    next
      case True
      define r' where
        "r' = r\<lparr>producer := (if size_cr r \<le>s producer r + 1 then 0 else producer r + 1)\<rparr>"
      define m' where "m' = m(base + sint (producer r) * sint (entry_size r) := Some v)"
      have step: "u_core_ring_produce r m p = (0, r', m')"
        and h': "cr_holds r' m' base (q @ [v])"
        using cr_produce_ok [OF Cons.prems(1) True v] by (simp_all add: r'_def m'_def)
      have fr: "size_cr r' = size_cr r" "entry_size r' = entry_size r"
        by (simp_all add: r'_def)
      have sa: "slot_addrs r' base = slot_addrs r base" using fr by (rule slot_addrs_cong)
      have "\<forall>op \<in> set ops. op_ok r' base m' op"
      proof
        fix op assume "op \<in> set ops"
        then have "op_ok r base m op" using Cons.prems(2) by simp
        then show "op_ok r' base m' op"
          by (rule op_ok_frame [OF _ sa]) (auto simp: m'_def)
      qed
      moreover obtain rs' where run: "core_ring_run load r' m' ops = (rs', r1, m1)"
        and rs: "rs = Ret 0 # rs'"
        using Cons.prems(3) Produce step by (auto split: prod.splits)
      ultimately obtain q1 where "cr_holds r1 m1 base q1"
        "int (length q1) = int (length (q @ [v])) + balance rs'"
        "size_cr r1 = size_cr r'" "entry_size r1 = entry_size r'"
        using Cons.IH [OF h'] by blast
      then show ?thesis using rs fr by auto
    qed
  next
    case (Consume p)
    then have ok: "p \<notin> slot_addrs r base" "p \<noteq> NULL" using Cons.prems(2) by simp_all
    show ?thesis
    proof (cases q)
      case Nil
      from cr_consume_empty [of r m base p] Cons.prems(1) Nil
      have step: "u_core_ring_consume r m p = (NULL, r, m)" by simp
      then obtain rs' where run: "core_ring_run load r m ops = (rs', r1, m1)"
        and rs: "rs = Nothing # rs'"
        using Cons.prems(3) Consume by (auto split: prod.splits)
      have "\<forall>op \<in> set ops. op_ok r base m op" using Cons.prems(2) by simp
      from Cons.IH [OF Cons.prems(1) this run] rs show ?thesis by auto
    next
      case (Cons v q')
      define r' where
        "r' = r\<lparr>consumer := (if size_cr r \<le>s consumer r + 1 then 0 else consumer r + 1)\<rparr>"
      define m' where
        "m' = (m(p := Some v))(base + sint (consumer r) * sint (entry_size r) := None)"
      have step: "u_core_ring_consume r m p = (p, r', m')"
        and h': "cr_holds r' m' base q'"
        using cr_consume_ok [of r m base v q' p] Cons.prems(1) ok Cons
        by (simp_all add: r'_def m'_def)
      have fr: "size_cr r' = size_cr r" "entry_size r' = entry_size r"
        by (simp_all add: r'_def)
      have sa: "slot_addrs r' base = slot_addrs r base" using fr by (rule slot_addrs_cong)
      have c: "0 \<le> sint (consumer r)" "sint (consumer r) < sint (size_cr r)"
        using Cons.prems(1) by (simp_all add: cr_holds_def)
      have slot: "base + sint (consumer r) * sint (entry_size r) \<in> slot_addrs r base"
        using c by (rule index_in_slot_addrs)
      have "\<forall>op \<in> set ops. op_ok r' base m' op"
      proof
        fix op assume "op \<in> set ops"
        then have "op_ok r base m op" using Cons.prems(2) by simp
        then show "op_ok r' base m' op"
          by (rule op_ok_frame [OF _ sa]) (use slot in \<open>auto simp: m'_def\<close>)
      qed
      moreover obtain rs' where run: "core_ring_run load r' m' ops = (rs', r1, m1)"
        and rs: "rs = Element p (load m' p) # rs'"
        using Cons.prems(3) Consume step ok by (auto split: prod.splits)
      ultimately obtain q1 where "cr_holds r1 m1 base q1"
        "int (length q1) = int (length q') + balance rs'"
        "size_cr r1 = size_cr r'" "entry_size r1 = entry_size r'"
        using Cons.IH [OF h'] by blast
      then show ?thesis using rs fr Cons by auto
    qed
  qed
qed

lemma idle_run:
  assumes "\<not> valid_fn r m (consumer r)"
    and "core_ring_run obs r m ops = (rs, r1, m1)"
    and "Ret 0 \<notin> set rs"
  shows "r1 = r \<and> m1 = m \<and>
         rs = map (\<lambda>op. case op of Produce p \<Rightarrow> Ret (- ENOSPC) | Consume p \<Rightarrow> Nothing) ops"
  using assms
proof (induction ops arbitrary: rs)
  case Nil
  then show ?case by simp
next
  case (Cons op ops)
  show ?case
  proof (cases op)
    case (Produce p)
    have "u_core_ring_produce r m p = (- ENOSPC, r, m)"
    proof (rule ccontr)
      assume "u_core_ring_produce r m p \<noteq> (- ENOSPC, r, m)"
      then have "fst (u_core_ring_produce r m p) = 0"
        by (auto simp: u_core_ring_produce_def Let_def split: if_splits)
      then show False using Cons.prems(2,3) Produce by (auto split: prod.splits)
    qed
    then obtain rs' where "core_ring_run obs r m ops = (rs', r1, m1)"
      "rs = Ret (- ENOSPC) # rs'"
      using Cons.prems(2) Produce by (auto split: prod.splits)
    then show ?thesis using Cons.IH [of rs'] Cons.prems(1,3) Produce by auto
  next
    case (Consume p)
    have "u_core_ring_consume r m p = (NULL, r, m)"
      using Cons.prems(1) by (simp add: u_core_ring_consume_def)
    then obtain rs' where "core_ring_run obs r m ops = (rs', r1, m1)"
      "rs = Nothing # rs'"
      using Cons.prems(2) Consume by (auto split: prod.splits)
    then show ?thesis using Cons.IH [of rs'] Cons.prems(1,3) Consume by auto
  qed
qed

lemma batch_ptrs_Suc:
  "batch_ptrs array es (Suc k) = array # batch_ptrs (array + es) es k"
proof -
  have "[0 ..< Suc k] = 0 # [Suc 0 ..< Suc k]" by (rule upt_conv_Cons) simp
  also have "[Suc 0 ..< Suc k] = map Suc [0 ..< k]" by (rule map_Suc_upt [symmetric])
  finally have "[0 ..< Suc k] = 0 # map Suc [0 ..< k]" .
  then show ?thesis by (simp add: batch_ptrs_def o_def algebra_simps)
qed

lemma batch_ptrs_props:
  "length (batch_ptrs array es k) = k"
  "j < k \<Longrightarrow> batch_ptrs array es k ! j = array + int j * es"
  "es \<noteq> 0 \<Longrightarrow> distinct (batch_ptrs array es k)"
  by (simp_all add: batch_ptrs_def distinct_map inj_on_def)

lemma consume_entry_size:
  "u_core_ring_consume r m p = (ptr, r', m') \<Longrightarrow> entry_size r' = entry_size r"
  by (auto simp: u_core_ring_consume_def u_core_ring_discard_one_def Let_def
      split: if_splits)

lemma batched_loop_run:
  assumes "core_ring_run obs r m (map Consume (batch_ptrs array (sint (entry_size r)) k)) =
             (rs, r1, m1)"
    and "\<forall>x \<in> set rs. x \<noteq> Nothing"
    and "sint i + int k \<le> sint n"
    and "sint i + int k < sint n \<longrightarrow> \<not> valid_fn r1 m1 (consumer r1)"
  shows "batched_loop r m array n i = (i + of_nat k, r1, m1)"
  using assms
proof (induction k arbitrary: r m array i rs)
  case 0
  then have e: "r1 = r" "m1 = m" by (simp_all add: batch_ptrs_def)
  show ?case
  proof (cases "i <s n")
    case True
    then have "\<not> valid_fn r m (consumer r)" using "0.prems"(4) e by (simp add: word_sless_alt)
    then have "u_core_ring_consume r m array = (NULL, r, m)"
      by (simp add: u_core_ring_consume_def)
    then show ?thesis using True e by (simp add: batched_loop.simps [of r m array n i])
  next
    case False
    then show ?thesis using e by (simp add: batched_loop.simps [of r m array n i])
  qed
next
  case (Suc k)
  obtain ptr r' m' where step: "u_core_ring_consume r m array = (ptr, r', m')"
    by (cases "u_core_ring_consume r m array") auto
  have es: "entry_size r' = entry_size r" using step by (rule consume_entry_size)
  obtain rs' where
    run: "core_ring_run obs r' m'
            (map Consume (batch_ptrs (array + sint (entry_size r')) (sint (entry_size r')) k)) =
          (rs', r1, m1)"
    and rs: "rs = (if ptr = NULL then Nothing else Element ptr (obs m' ptr)) # rs'"
    using Suc.prems(1) step es by (auto simp: batch_ptrs_Suc split: prod.splits)
  have nn: "ptr \<noteq> NULL" using Suc.prems(2) rs by auto
  have lt: "i <s n" using Suc.prems(3) by (simp add: word_sless_alt)
  then have i1: "sint (i + 1) = sint i + 1" by (rule sint_succ_less)
  have "batched_loop r' m' (array + sint (entry_size r')) n (i + 1) =
          (i + 1 + of_nat k, r1, m1)"
  proof (rule Suc.IH [OF run])
    show "\<forall>x \<in> set rs'. x \<noteq> Nothing" using Suc.prems(2) rs by simp
    show "sint (i + 1) + int k \<le> sint n" using Suc.prems(3) i1 by simp
    show "sint (i + 1) + int k < sint n \<longrightarrow> \<not> valid_fn r1 m1 (consumer r1)"
      using Suc.prems(4) i1 by simp
  qed
  then show ?case using step nn lt
    by (simp add: batched_loop.simps [of r m array n i] add.assoc)
qed

section \<open>Steps and runs of the packet ring\<close>

lemma skb_holds_count:
  assumes "skb_holds ring k q"
  shows "unat (CIRC_CNT (head ring) (tail ring) (size_skb ring)) = length q"
proof -
  let ?T = "uint (tail ring)" and ?n = "int (length q)"
  have k: "k \<le> 64" and sz: "size_skb ring = 2 ^ k" and n: "length q < 2 ^ k"
    and hd: "unat (head ring) = (unat (tail ring) + length q) mod 2 ^ k"
    using assms by (auto simp: skb_holds_def)
  have "int (unat (head ring)) = int ((unat (tail ring) + length q) mod 2 ^ k)"
    using hd by (rule arg_cong)
  then have h: "uint (head ring) = (?T + ?n) mod 2 ^ k"
    by (simp add: zmod_int)
  have "uint (CIRC_CNT (head ring) (tail ring) (size_skb ring)) =
          (uint (head ring) - ?T) mod 2 ^ k"
    unfolding sz by (rule uint_CIRC_CNT [OF k])
  also have "\<dots> = ((?T + ?n) mod 2 ^ k - ?T) mod 2 ^ k" by (simp only: h)
  also have "\<dots> = ((?T + ?n) - ?T) mod 2 ^ k" by (rule mod_diff_left_eq)
  also have "\<dots> = ?n" using n by simp
  finally have "int (unat (CIRC_CNT (head ring) (tail ring) (size_skb ring))) =
      int (length q)"
    by (simp only: uint_nat)
  then show ?thesis by (rule int_int_eq [THEN iffD1])
qed

lemma skb_holds_space:
  assumes "skb_holds ring k q"
  shows "unat (CIRC_SPACE (head ring) (tail ring) (size_skb ring)) = 2 ^ k - 1 - length q"
proof -
  let ?T = "uint (tail ring)" and ?n = "int (length q)"
  have k: "k \<le> 64" and sz: "size_skb ring = 2 ^ k" and n: "length q < 2 ^ k"
    and hd: "unat (head ring) = (unat (tail ring) + length q) mod 2 ^ k"
    using assms by (auto simp: skb_holds_def)
  have n': "?n < 2 ^ k" using n by (metis of_nat_less_iff of_nat_numeral of_nat_power)
  have "int (unat (head ring)) = int ((unat (tail ring) + length q) mod 2 ^ k)"
    using hd by (rule arg_cong)
  then have h: "uint (head ring) = (?T + ?n) mod 2 ^ k"
    by (simp add: zmod_int)
  have "uint (CIRC_SPACE (head ring) (tail ring) (size_skb ring)) =
          (?T - (uint (head ring) + 1)) mod 2 ^ k"
    unfolding sz by (rule uint_CIRC_SPACE [OF k])
  also have "\<dots> = (?T - ((?T + ?n) mod 2 ^ k + 1)) mod 2 ^ k" by (simp only: h)
  also have "\<dots> = ((?T - 1) - (?T + ?n) mod 2 ^ k) mod 2 ^ k" by (simp add: algebra_simps)
  also have "\<dots> = ((?T - 1) - (?T + ?n)) mod 2 ^ k" by (rule mod_diff_right_eq)
  also have "\<dots> = (2 ^ k - 1 - ?n + (- 1) * 2 ^ k) mod 2 ^ k" by (simp add: algebra_simps)
  also have "\<dots> = (2 ^ k - 1 - ?n) mod 2 ^ k" by (rule mod_mult_self1)
  also have "\<dots> = 2 ^ k - 1 - ?n" using n' by simp
  finally have "int (unat (CIRC_SPACE (head ring) (tail ring) (size_skb ring))) =
      2 ^ k - 1 - ?n"
    by (simp only: uint_nat)
  also have "\<dots> = int (2 ^ k - 1 - length q)" using n by (simp add: of_nat_diff)
  finally show ?thesis by (rule int_int_eq [THEN iffD1])
qed

lemma skb_holds_bounds:
  assumes "skb_holds ring k q"
  shows "head ring < size_skb ring" "tail ring < size_skb ring"
    "uint (size_skb ring) = 2 ^ k" "int (length q) < 2 ^ k"
proof -
  have k: "k < 64" and sz: "size_skb ring = 2 ^ k" and t: "unat (tail ring) < 2 ^ k"
    and n: "length q < 2 ^ k"
    and hd: "unat (head ring) = (unat (tail ring) + length q) mod 2 ^ k"
    using assms by (auto simp: skb_holds_def)
  have u: "unat (size_skb ring) = 2 ^ k" using k sz by (simp add: unat_pow2_64)
  show "uint (size_skb ring) = 2 ^ k" using k sz by (simp add: uint_pow2_64)
  show "tail ring < size_skb ring" using t u by (simp add: word_less_nat_alt)
  have "unat (head ring) < 2 ^ k" unfolding hd by simp
  then show "head ring < size_skb ring" using u by (simp add: word_less_nat_alt)
  show "int (length q) < 2 ^ k" using n by (metis of_nat_less_iff of_nat_numeral of_nat_power)
qed

lemma skb_holds_descs:
  assumes "skb_holds ring k q"
  shows "\<exists>ds. descs ring = Some ds \<and> length ds = 2 ^ k \<and>
    (\<forall>j < length q. ds ! ((unat (tail ring) + j) mod 2 ^ k) = q ! j)"
  using assms by (auto simp: skb_holds_def split: option.splits)

lemma queued_desc_cached: "queued_desc h p = \<lparr>skb = Some p, len = cached_len h p\<rparr>"
  by (simp add: queued_desc_def cached_len_def)

lemma skb_queue_full:
  assumes "skb_holds ring k q" "length q + 1 = 2 ^ k"
  shows "skb_ring_queue ring h skbp = Inr (- EFAULT, ring)"
proof -
  have "unat (CIRC_SPACE (head ring) (tail ring) (size_skb ring)) = 0"
    using skb_holds_space [OF assms(1)] assms(2) by simp
  then have "\<not> 1 \<le> CIRC_SPACE (head ring) (tail ring) (size_skb ring)"
    by (simp add: word_ge_1_unat)
  then show ?thesis by (simp add: skb_ring_queue_def)
qed

lemma skb_queue_ok:
  fixes hp :: "'p \<Rightarrow> sk_buff" and p :: 'p
  assumes h: "skb_holds ring k q" and n: "length q + 1 < 2 ^ k"
  defines "ring' \<equiv> ring\<lparr>descs := Some ((the (descs ring))[unat (head ring) := queued_desc hp p]),
      head := (head ring + 1) AND (size_skb ring - 1)\<rparr>"
  shows "skb_ring_queue ring hp (Some p) = Inr (0, ring')"
    and "skb_holds ring' k (q @ [queued_desc hp p])"
proof -
  let ?S = "2 ^ k :: nat" and ?T = "unat (tail ring)" and ?n = "length q"
  obtain ds where ds: "descs ring = Some ds" "length ds = ?S"
    and cells: "\<And>j. j < ?n \<Longrightarrow> ds ! ((?T + j) mod ?S) = q ! j"
    using skb_holds_descs [OF h] by blast
  have k: "k < 64" and sz: "size_skb ring = 2 ^ k" and t: "?T < ?S"
    and hd: "unat (head ring) = (?T + ?n) mod ?S"
    using h by (auto simp: skb_holds_def)
  have "unat (CIRC_SPACE (head ring) (tail ring) (size_skb ring)) = ?S - 1 - ?n"
    by (rule skb_holds_space [OF h])
  then have sp: "1 \<le> CIRC_SPACE (head ring) (tail ring) (size_skb ring)"
    using n by (simp add: word_ge_1_unat)
  have hlt: "unat (head ring) < length ds" using hd ds(2) by simp
  show "skb_ring_queue ring hp (Some p) = Inr (0, ring')"
    using sp ds hlt by (simp add: skb_ring_queue_def ring'_def queued_desc_def Let_def)
  have hd': "unat (head ring') = (?T + Suc ?n) mod ?S"
  proof -
    have "unat (head ring') = (unat (head ring) + 1) mod ?S"
      unfolding ring'_def using unat_next_index [of k "head ring"] k sz by simp
    also have "\<dots> = ((?T + ?n) mod ?S + 1) mod ?S" by (simp only: hd)
    also have "\<dots> = (?T + ?n + 1) mod ?S" by (rule mod_add_left_eq)
    finally show ?thesis by simp
  qed
  have cells': "(ds[unat (head ring) := queued_desc hp p]) ! ((?T + j) mod ?S) =
      (q @ [queued_desc hp p]) ! j" if j: "j < Suc ?n" for j
  proof (cases "j = ?n")
    case True
    then show ?thesis using hd hlt by simp
  next
    case False
    then have jn: "j < ?n" using j by simp
    have "(?T + j) mod ?S \<noteq> (?T + ?n) mod ?S"
      using mod_shift_inj_nat [of j ?S ?n ?T] jn n by auto
    then show ?thesis using cells [OF jn] jn hd by (simp add: nth_append)
  qed
  show "skb_holds ring' k (q @ [queued_desc hp p])"
    unfolding skb_holds_def
  proof (intro conjI)
    show "k < 64" by (rule k)
    show "size_skb ring' = 2 ^ k" using sz by (simp add: ring'_def)
    show "unat (tail ring') < 2 ^ k" using t by (simp add: ring'_def)
    show "length (q @ [queued_desc hp p]) < 2 ^ k" using n by simp
    show "unat (head ring') = (unat (tail ring') + length (q @ [queued_desc hp p])) mod 2 ^ k"
      using hd' by (simp add: ring'_def)
    show "case descs ring' of None \<Rightarrow> False
      | Some ds \<Rightarrow> length ds = 2 ^ k \<and>
          (\<forall>j \<in> {0 ..< length (q @ [queued_desc hp p])}.
             ds ! ((unat (tail ring') + j) mod 2 ^ k) = (q @ [queued_desc hp p]) ! j)"
      using ds cells' by (simp add: ring'_def)
  qed
qed

lemma skb_dequeue_empty:
  assumes "skb_holds ring k []"
  shows "skb_ring_dequeue ring = Inr (None, ring)"
proof -
  have "unat (CIRC_CNT (head ring) (tail ring) (size_skb ring)) = 0"
    using skb_holds_count [OF assms] by simp
  then have "\<not> 1 \<le> CIRC_CNT (head ring) (tail ring) (size_skb ring)"
    by (simp add: word_ge_1_unat)
  then show ?thesis by (simp add: skb_ring_dequeue_def)
qed

lemma skb_holds_head_desc:
  assumes "skb_holds ring k (d # q)"
  shows "1 \<le> CIRC_CNT (head ring) (tail ring) (size_skb ring)"
    and "desc_at ring (tail ring) = Inr d"
proof -
  obtain ds where ds: "descs ring = Some ds" "length ds = 2 ^ k"
    and cells: "\<And>j. j < length (d # q) \<Longrightarrow>
      ds ! ((unat (tail ring) + j) mod 2 ^ k) = (d # q) ! j"
    using skb_holds_descs [OF assms] by blast
  have t: "unat (tail ring) < 2 ^ k" using assms by (simp add: skb_holds_def)
  have "unat (CIRC_CNT (head ring) (tail ring) (size_skb ring)) = length (d # q)"
    by (rule skb_holds_count [OF assms])
  then show "1 \<le> CIRC_CNT (head ring) (tail ring) (size_skb ring)"
    by (simp add: word_ge_1_unat)
  have "ds ! ((unat (tail ring) + 0) mod 2 ^ k) = (d # q) ! 0" by (rule cells) simp
  then have "ds ! unat (tail ring) = d" using t by simp
  then show "desc_at ring (tail ring) = Inr d" using ds t by (simp add: desc_at_def)
qed

lemma skb_dequeue_ok:
  assumes h: "skb_holds ring k (d # q)"
  defines "ring' \<equiv> ring\<lparr>tail := (tail ring + 1) AND (size_skb ring - 1)\<rparr>"
  shows "skb_ring_dequeue ring = Inr (skb d, ring')" and "skb_holds ring' k q"
proof -
  let ?S = "2 ^ k :: nat" and ?T = "unat (tail ring)" and ?n = "length q"
  obtain ds where ds: "descs ring = Some ds" "length ds = ?S"
    and cells: "\<And>j. j < length (d # q) \<Longrightarrow> ds ! ((?T + j) mod ?S) = (d # q) ! j"
    using skb_holds_descs [OF h] by blast
  have k: "k < 64" and sz: "size_skb ring = 2 ^ k" and t: "?T < ?S"
    and n: "Suc ?n < ?S"
    and hd: "unat (head ring) = (?T + Suc ?n) mod ?S"
    using h by (auto simp: skb_holds_def)
  show "skb_ring_dequeue ring = Inr (skb d, ring')"
    using skb_holds_head_desc [OF h] by (simp add: skb_ring_dequeue_def ring'_def)
  have t': "unat (tail ring') = (?T + 1) mod ?S"
    unfolding ring'_def using unat_next_index [of k "tail ring"] k sz by simp
  have cells': "ds ! ((unat (tail ring') + j) mod ?S) = q ! j" if j: "j < ?n" for j
  proof -
    have "(unat (tail ring') + j) mod ?S = (?T + Suc j) mod ?S"
      unfolding t' by (rule mod_succ_shift_nat)
    moreover have "ds ! ((?T + Suc j) mod ?S) = (d # q) ! Suc j" using j by (intro cells) simp
    ultimately show ?thesis by simp
  qed
  show "skb_holds ring' k q"
    unfolding skb_holds_def
  proof (intro conjI)
    show "k < 64" by (rule k)
    show "size_skb ring' = 2 ^ k" using sz by (simp add: ring'_def)
    show "unat (tail ring') < 2 ^ k" unfolding t' by simp
    show "length q < 2 ^ k" using n by simp
    show "unat (head ring') = (unat (tail ring') + length q) mod 2 ^ k"
      unfolding t' using hd mod_succ_shift_nat [of ?T ?S ?n] by (simp add: ring'_def)
    show "case descs ring' of None \<Rightarrow> False
      | Some ds \<Rightarrow> length ds = 2 ^ k \<and>
          (\<forall>j \<in> {0 ..< length q}. ds ! ((unat (tail ring') + j) mod 2 ^ k) = q ! j)"
      using ds cells' by (simp add: ring'_def)
  qed
qed

lemma skb_peek_holds:
  assumes "skb_holds ring k q"
  shows "skb_ring_peek ring = Inr (case q of [] \<Rightarrow> 0 | d # _ \<Rightarrow> len d)"
proof (cases q)
  case Nil
  then have "unat (CIRC_CNT (head ring) (tail ring) (size_skb ring)) = 0"
    using skb_holds_count [OF assms] by simp
  then have "\<not> 1 \<le> CIRC_CNT (head ring) (tail ring) (size_skb ring)"
    by (simp add: word_ge_1_unat)
  then show ?thesis using Nil by (simp add: skb_ring_peek_def)
next
  case (Cons d q')
  then show ?thesis
    using skb_holds_head_desc [of ring k d q'] assms by (simp add: skb_ring_peek_def)
qed

lemma skb_queue_cases:
  assumes "skb_holds ring k q"
  shows "(length q + 1 = 2 ^ k \<and> skb_ring_queue ring h (Some p) = Inr (- EFAULT, ring)) \<or>
         (length q + 1 < 2 ^ k \<and>
          (\<exists>ring'. skb_ring_queue ring h (Some p) = Inr (0, ring') \<and>
             skb_holds ring' k (q @ [queued_desc h p])))"
proof (cases "length q + 1 < 2 ^ k")
  case True
  then show ?thesis using skb_queue_ok [OF assms True, of h p] by blast
next
  case False
  moreover have "length q < 2 ^ k" using assms by (simp add: skb_holds_def)
  ultimately have "length q + 1 = 2 ^ k" by simp
  then show ?thesis using skb_queue_full [OF assms] by blast
qed

lemma skb_dequeue_cases:
  assumes "skb_holds ring k q"
  shows "(q = [] \<and> skb_ring_dequeue ring = Inr (None, ring)) \<or>
         (\<exists>d q' ring'. q = d # q' \<and> skb_ring_dequeue ring = Inr (skb d, ring') \<and>
            skb_holds ring' k q')"
proof (cases q)
  case Nil
  then show ?thesis using skb_dequeue_empty [of ring k] assms by simp
next
  case (Cons d q')
  then show ?thesis using skb_dequeue_ok [of ring k d q'] assms by blast
qed

lemma skb_run_holds:
  assumes "skb_holds ring k q" "resident q"
  shows "\<exists>rs ring1 q1. skb_ring_run ring h ops = Inr (rs, ring1) \<and>
           skb_holds ring1 k q1 \<and> resident q1 \<and>
           int (length q1) = int (length q) + skb_balance rs"
  using assms
proof (induction ops arbitrary: ring q)
  case Nil
  then show ?case by auto
next
  case (Cons op ops)
  show ?case
  proof (cases op)
    case (Queue p)
    from skb_queue_cases [OF Cons.prems(1), of h p]
    show ?thesis
    proof (elim disjE conjE exE)
      assume step: "skb_ring_queue ring h (Some p) = Inr (- EFAULT, ring)"
      from Cons.IH [OF Cons.prems] obtain rs ring1 q1 where
        "skb_ring_run ring h ops = Inr (rs, ring1)" "skb_holds ring1 k q1" "resident q1"
        "int (length q1) = int (length q) + skb_balance rs" by blast
      then show ?thesis using step Queue by (auto simp: EFAULT_def)
    next
      fix ring'
      assume step: "skb_ring_queue ring h (Some p) = Inr (0, ring')"
        and h': "skb_holds ring' k (q @ [queued_desc h p])"
      have "resident (q @ [queued_desc h p])"
        using Cons.prems(2) by (simp add: resident_def queued_desc_def)
      from Cons.IH [OF h' this] obtain rs ring1 q1 where
        "skb_ring_run ring' h ops = Inr (rs, ring1)" "skb_holds ring1 k q1" "resident q1"
        "int (length q1) = int (length (q @ [queued_desc h p])) + skb_balance rs" by blast
      then show ?thesis using step Queue by auto
    qed
  next
    case Dequeue
    from skb_dequeue_cases [OF Cons.prems(1)]
    show ?thesis
    proof (elim disjE conjE exE)
      assume step: "skb_ring_dequeue ring = Inr (None, ring)"
      from Cons.IH [OF Cons.prems] obtain rs ring1 q1 where
        "skb_ring_run ring h ops = Inr (rs, ring1)" "skb_holds ring1 k q1" "resident q1"
        "int (length q1) = int (length q) + skb_balance rs" by blast
      then show ?thesis using step Dequeue by auto
    next
      fix d q' ring'
      assume q: "q = d # q'" and step: "skb_ring_dequeue ring = Inr (skb d, ring')"
        and h': "skb_holds ring' k q'"
      have r: "resident q'" and "skb d \<noteq> None"
        using Cons.prems(2) q by (simp_all add: resident_def)
      then obtain p where p: "skb d = Some p" by auto
      from Cons.IH [OF h' r] obtain rs ring1 q1 where
        "skb_ring_run ring' h ops = Inr (rs, ring1)" "skb_holds ring1 k q1" "resident q1"
        "int (length q1) = int (length q') + skb_balance rs" by blast
      then show ?thesis using step Dequeue q p by auto
    qed
  qed
qed

lemma skb_queue_run:
  assumes "skb_holds ring k q"
    and "skb_ring_run ring h (map Queue ps) = Inr (rs, ring1)"
    and "\<forall>x \<in> set rs. x = Queued 0"
  shows "skb_holds ring1 k (q @ map (queued_desc h) ps)"
  using assms
proof (induction ps arbitrary: ring q rs)
  case Nil
  then show ?case by simp
next
  case (Cons p ps)
  from skb_queue_cases [OF Cons.prems(1), of h p]
  show ?case
  proof (elim disjE conjE exE)
    assume "skb_ring_queue ring h (Some p) = Inr (- EFAULT, ring)"
    then show ?thesis using Cons.prems(2,3)
      by (auto simp: EFAULT_def split: sum.splits prod.splits)
  next
    fix ring'
    assume step: "skb_ring_queue ring h (Some p) = Inr (0, ring')"
      and h': "skb_holds ring' k (q @ [queued_desc h p])"
    obtain rs' where run: "skb_ring_run ring' h (map Queue ps) = Inr (rs', ring1)"
      and rs: "rs = Queued 0 # rs'"
      using Cons.prems(2) step by (auto split: sum.splits prod.splits)
    have "\<forall>x \<in> set rs'. x = Queued 0" using Cons.prems(3) rs by simp
    from Cons.IH [OF h' run this] show ?thesis by simp
  qed
qed

lemma skb_queue_run_fits:
  assumes "skb_holds ring k q" "length q + length ps < 2 ^ k"
  shows "\<exists>ring1. skb_ring_run ring h (map Queue ps) =
           Inr (replicate (length ps) (Queued 0), ring1) \<and>
         skb_holds ring1 k (q @ map (queued_desc h) ps)"
  using assms
proof (induction ps arbitrary: ring q)
  case Nil
  then show ?case by simp
next
  case (Cons p ps)
  have lt: "length q + 1 < 2 ^ k" using Cons.prems(2) by simp
  define ring' where "ring' =
    ring\<lparr>descs := Some ((the (descs ring))[unat (head ring) := queued_desc h p]),
      head := (head ring + 1) AND (size_skb ring - 1)\<rparr>"
  have step: "skb_ring_queue ring h (Some p) = Inr (0, ring')"
    and h': "skb_holds ring' k (q @ [queued_desc h p])"
    using skb_queue_ok [OF Cons.prems(1) lt, of h p] by (simp_all add: ring'_def)
  have "length (q @ [queued_desc h p]) + length ps < 2 ^ k" using Cons.prems(2) by simp
  from Cons.IH [OF h' this] obtain ring1 where
    "skb_ring_run ring' h (map Queue ps) = Inr (replicate (length ps) (Queued 0), ring1)"
    "skb_holds ring1 k ((q @ [queued_desc h p]) @ map (queued_desc h) ps)" by blast
  then show ?case using step by simp
qed

lemma skb_dequeue_run:
  assumes "skb_holds ring k q" "n \<le> length q"
  shows "\<exists>ring1. skb_ring_run ring h (replicate n Dequeue) =
           Inr (map (\<lambda>d. Dequeued (skb d)) (take n q), ring1) \<and>
         skb_holds ring1 k (drop n q)"
  using assms
proof (induction n arbitrary: ring q)
  case 0
  then show ?case by simp
next
  case (Suc n)
  then obtain d q' where q: "q = d # q'" by (cases q) auto
  define ring' where "ring' = ring\<lparr>tail := (tail ring + 1) AND (size_skb ring - 1)\<rparr>"
  have step: "skb_ring_dequeue ring = Inr (skb d, ring')" and h': "skb_holds ring' k q'"
    using skb_dequeue_ok [of ring k d q'] Suc.prems(1) q by (simp_all add: ring'_def)
  have "n \<le> length q'" using Suc.prems(2) q by simp
  from Suc.IH [OF h' this] obtain ring1 where
    "skb_ring_run ring' h (replicate n Dequeue) =
       Inr (map (\<lambda>d. Dequeued (skb d)) (take n q'), ring1)"
    "skb_holds ring1 k (drop n q')" by blast
  then show ?case using step q by simp
qed

lemma skb_fresh_holds:
  assumes "k < 64" "length ds = 2 ^ k"
  shows "skb_holds (snd (skb_ring_init ring0 (2 ^ k) (Some ds))) k []"
  using assms by (simp add: skb_holds_def skb_ring_init_def)

text \<open>
  The purge loop returns only when it is not entered, or when its first access to the
  descriptors faults; and a loop that is entered hands the same packet to
  \<^verbatim>\<open>kfree_skb\<close> once more at every turn.
\<close>

lemma purge_loop_returns:
  assumes "purge_loop head' tail' ring freed = Some y"
  shows "\<not> 1 \<le> CIRC_CNT head' tail' (size_skb ring) \<or> (\<exists>f. desc_at ring tail' = Inl f)"
  using assms
proof (induction head' tail' ring freed y
    rule: purge_loop.raw_induct [rotated 1, consumes 1, case_names step])
  case (step purge_loop' head' tail' ring freed y)
  show ?case
  proof (cases "1 \<le> CIRC_CNT head' tail' (size_skb ring)")
    case False
    then show ?thesis by simp
  next
    case True
    show ?thesis
    proof (cases "desc_at ring tail'")
      case (Inl f)
      then show ?thesis by blast
    next
      case (Inr d)
      let ?ring' = "ring\<lparr>tail := (tail' + 1) AND (size_skb ring - 1)\<rparr>"
      have "purge_loop' head' tail' ?ring' (freed @ [skb d]) = Some y"
        using step(2) True Inr by simp
      from step(1) [OF this] True Inr show ?thesis by (simp add: desc_at_def)
    qed
  qed
qed

lemma purge_diverges:
  assumes "skb_holds ring k (d # q)"
  shows "skb_ring_purge ring = None"
proof (rule ccontr)
  assume "skb_ring_purge ring \<noteq> None"
  then obtain y where "purge_loop (head ring) (tail ring) ring [] = Some y"
    by (auto simp: skb_ring_purge_def)
  from purge_loop_returns [OF this] skb_holds_head_desc [OF assms]
  show False by simp
qed

lemma purge_empty:
  assumes "skb_holds ring k []"
  shows "skb_ring_purge ring = Some ([], Inr ring)"
proof -
  have "unat (CIRC_CNT (head ring) (tail ring) (size_skb ring)) = 0"
    using skb_holds_count [OF assms] by simp
  then have "\<not> 1 \<le> CIRC_CNT (head ring) (tail ring) (size_skb ring)"
    by (simp add: word_ge_1_unat)
  then show ?thesis by (simp add: skb_ring_purge_def purge_loop.simps)
qed

lemma purge_loop_unroll:
  assumes "1 \<le> CIRC_CNT head' tail' (size_skb ring)" "desc_at ring tail' = Inr d"
  shows "purge_loop head' tail' ring freed =
     purge_loop head' tail' (ring\<lparr>tail := (tail' + 1) AND (size_skb ring - 1)\<rparr>)
       (freed @ replicate (Suc n) (skb d))"
proof (induction n)
  case 0
  show ?case using assms by (subst purge_loop.simps) simp
next
  case (Suc n)
  let ?ring' = "ring\<lparr>tail := (tail' + 1) AND (size_skb ring - 1)\<rparr>"
  have d': "desc_at ?ring' tail' = Inr d" using assms(2) by (simp add: desc_at_def)
  have "purge_loop head' tail' ?ring' (freed @ replicate (Suc n) (skb d)) =
      purge_loop head' tail' ?ring' ((freed @ replicate (Suc n) (skb d)) @ [skb d])"
    using assms(1) d' by (subst purge_loop.simps) simp
  also have "(freed @ replicate (Suc n) (skb d)) @ [skb d] =
      freed @ replicate (Suc (Suc n)) (skb d)"
    by (simp add: replicate_append_same)
  finally show ?case using Suc by simp
qed

section \<open>Facts about the concrete rings\<close>

lemma ex_ring2_fields:
  "producer ex_ring2 = 0" "consumer ex_ring2 = 0" "size_cr ex_ring2 = 2"
  "entry_size ex_ring2 = 8" "seek_fn ex_ring2 = slot_seek 4096 8"
  "valid_fn ex_ring2 = slot_valid 4096 8" "zero_fn ex_ring2 = slot_zero 4096 8"
  "copy_fn ex_ring2 = slot_copy"
  by (simp_all add: ex_ring2_def core_ring_init_def u_core_ring_set_size_def ex_table_def slot_table_def)

lemma ex_ring0_fields:
  "producer ex_ring0 = 0" "consumer ex_ring0 = 0" "size_cr ex_ring0 = 0"
  "entry_size ex_ring0 = 8" "seek_fn ex_ring0 = slot_seek 4096 8"
  "valid_fn ex_ring0 = slot_valid 4096 8" "zero_fn ex_ring0 = slot_zero 4096 8"
  "copy_fn ex_ring0 = slot_copy"
  by (simp_all add: ex_ring0_def core_ring_init_def u_core_ring_set_size_def ex_table_def slot_table_def)

lemma ex_slots: "slot_seek 4096 8 0 = 4096" "slot_seek 4096 8 1 = 4104"
  by (simp_all add: slot_seek_def)

lemma ex_mem_slots: "ex_mem 4096 = None" "ex_mem 4104 = None" "ex_mem 64 = Some 11"
  by (simp_all add: ex_mem_def)

lemma ex_zeroed:
  "\<forall>a \<in> (\<lambda>i. 4096 + int i * sint (8 :: 32 word)) ` {0 ..< nat (sint (2 :: 32 word))}.
     ex_mem a = None"
  by (auto simp: ex_mem_def)

lemma ex_fresh: "cr_holds ex_ring2 ex_mem 4096 []"
  unfolding ex_ring2_def ex_table_def
  by (rule fresh_ring_holds) (simp_all add: ex_zeroed)

lemma ex_slot_addrs: "a \<in> slot_addrs ex_ring2 4096 \<Longrightarrow> 4096 \<le> a"
  by (auto simp: slot_addrs_def ex_ring2_fields)

lemma ex_sources: "\<forall>p \<in> set [64, 72, 80]. ex_mem p \<noteq> None"
  by (simp add: ex_mem_def)

lemma ex_outs: "\<forall>p \<in> set [128, 136, 144]. p \<notin> slot_addrs ex_ring2 4096 \<and> p \<noteq> NULL"
  using ex_slot_addrs by (fastforce simp: NULL_def)

lemma ex_ops_ok:
  "\<forall>op \<in> set [Produce 64, Produce 72, Consume 128, Produce 80]. op_ok ex_ring2 4096 ex_mem op"
  using ex_slot_addrs [of 64] ex_slot_addrs [of 72] ex_slot_addrs [of 80]
    ex_slot_addrs [of 128]
  by (auto simp: ex_mem_def NULL_def)

lemma ex_two_held:
  "\<exists>r m. core_ring_run load ex_ring2 ex_mem [Produce 64, Produce 72] = ([Ret 0, Ret 0], r, m) \<and>
     cr_holds r m 4096 [11, 22] \<and> size_cr r = 2 \<and> entry_size r = 8"
proof -
  have src: "\<forall>p \<in> set [64, 72]. ex_mem p \<noteq> None" using ex_sources by simp
  have "int (length ([] :: nat list) + length [64, 72 :: addr]) \<le> sint (size_cr ex_ring2)"
    by (simp add: ex_ring2_fields)
  from produce_run_fits [OF ex_fresh src this, of load]
  obtain r m where run: "core_ring_run load ex_ring2 ex_mem (map Produce [64, 72]) =
      ([Ret 0, Ret 0], r, m)"
    by (auto simp: numeral_2_eq_2)
  have "cr_holds r m 4096 ([] @ map (\<lambda>a. the (ex_mem a)) [64, 72]) \<and>
         size_cr r = size_cr ex_ring2 \<and> entry_size r = entry_size ex_ring2"
    using ex_fresh src run by (rule produce_run) simp
  then have "cr_holds r m 4096 [11, 22]" "size_cr r = 2" "entry_size r = 8"
    by (simp_all add: ex_mem_def ex_ring2_fields)
  with run show ?thesis by auto
qed

lemma ex_skb_fresh: "skb_holds ex_skb4 2 []"
proof -
  have "skb_holds (snd (skb_ring_init ex_skb_raw (2 ^ 2) (Some ex_descs))) 2 []"
    by (rule skb_fresh_holds) (simp_all add: ex_descs_def)
  then show ?thesis by (simp add: ex_skb4_def)
qed

lemma ex_skb_one_queued: "skb_ring_queue ex_skb4 ex_heap (Some 1) = Inr (0, ex_skb_one)"
  by (simp add: ex_skb_one_def ex_skb4_def skb_ring_init_def ex_skb_raw_def ex_descs_def
      skb_ring_queue_def CIRC_SPACE_def CIRC_CNT_def Let_def ex_heap_def)

lemma ex_skb_one_holds: "skb_holds ex_skb_one 2 [\<lparr>skb = Some 1, len = 100\<rparr>]"
proof -
  have "length ([] :: nat skb_desc list) + 1 < 2 ^ 2" by simp
  from skb_queue_ok [OF ex_skb_fresh this, of ex_heap 1] ex_skb_one_queued
  show ?thesis by (simp add: queued_desc_def ex_heap_def)
qed

text \<open>
  The power of two matters, and \<^verbatim>\<open>skb_ring_init\<close> does not check it (its source says
  \<^verbatim>\<open>FIXEME: check power of 2\<close>): on the ring of size 3 an enqueue returns 0 and leaves
  \<open>head\<close> where it was, so that the dequeue that follows finds the ring empty.
\<close>

lemma size_three_loses_packet:
  "skb_outcomes (skb_ring_run ex_skb3 ex_heap [Queue 1, Dequeue]) =
     Some [Queued 0, Dequeued None]"
  by (simp add: skb_outcomes_def ex_skb3_def skb_ring_init_def ex_skb_raw_def ex_descs_def
      skb_ring_queue_def skb_ring_dequeue_def CIRC_SPACE_def CIRC_CNT_def Let_def)

text \<open>
  \<^verbatim>\<open>skb_ring_init\<close> does not check for size zero either, and no function of the packet
  ring guards against it as \<^verbatim>\<open>__core_ring_produce\<close> does: with the empty array that
  \<^verbatim>\<open>kmalloc(0)\<close> hands out, initialisation returns 0, and the first enqueue finds
  \<open>CIRC_SPACE 0 0 0\<close> to be all ones and goes on to \<^verbatim>\<open>descs[0]\<close>, past the storage.
\<close>

lemma size_zero_enqueue_out_of_bounds:
  "fst (skb_ring_init ex_skb_raw 0 (Some [])) = 0 \<and>
   skb_ring_queue (snd (skb_ring_init ex_skb_raw 0 (Some []))) ex_heap (Some 1) =
     Inl OutOfBounds"
  by (simp add: skb_ring_init_def ex_skb_raw_def skb_ring_queue_def CIRC_SPACE_def
      CIRC_CNT_def Let_def)

section \<open>The claims\<close>

text \<open>
  C1. FIFO order, for both rings. Index-based ring, with the slot table: starting from
  an empty ring, if every call of a sequence of produce calls returns 0, where the
  buffers handed in hold elements (are not zeroed), then as many consume calls into
  buffers outside the slot array return their buffers, and the element read from the
  i-th buffer on return is the element the i-th produce was given. Packet ring, of a
  size that is a power of two: starting from an empty ring, if every call of a sequence
  of \<open>skb_ring_queue\<close> calls returns 0, then as many \<open>skb_ring_dequeue\<close> calls return
  the queued packets in the order in which they were queued.
\<close>

theorem fifo_order:
  "(cr_holds r m base [] \<and> (\<forall>p \<in> set ps. m p \<noteq> None) \<and>
    core_ring_run load r m (map Produce ps) = (rs, r1, m1) \<and> (\<forall>x \<in> set rs. x = Ret 0) \<and>
    length os = length ps \<and> (\<forall>p \<in> set os. p \<notin> slot_addrs r base \<and> p \<noteq> NULL) \<longrightarrow>
      fst (core_ring_run load r1 m1 (map Consume os)) =
        map2 (\<lambda>p e. Element p (m e)) os ps) \<and>
   (skb_holds ring k [] \<and> skb_ring_run ring h (map Queue qs) = Inr (rs', ring1) \<and>
    (\<forall>x \<in> set rs'. x = Queued 0) \<longrightarrow>
      (\<exists>ring2. skb_ring_run ring1 h (replicate (length qs) Dequeue) =
         Inr (map (\<lambda>p. Dequeued (Some p)) qs, ring2)))"
proof (intro conjI impI)
  assume a: "cr_holds r m base [] \<and> (\<forall>p \<in> set ps. m p \<noteq> None) \<and>
    core_ring_run load r m (map Produce ps) = (rs, r1, m1) \<and> (\<forall>x \<in> set rs. x = Ret 0) \<and>
    length os = length ps \<and> (\<forall>p \<in> set os. p \<notin> slot_addrs r base \<and> p \<noteq> NULL)"
  then have h1: "cr_holds r1 m1 base ([] @ map (\<lambda>a. the (m a)) ps)"
    and sz: "size_cr r1 = size_cr r" "entry_size r1 = entry_size r"
    using produce_run [of r m base "[]" ps load rs r1 m1] by simp_all
  have sa: "slot_addrs r1 base = slot_addrs r base" using sz by (rule slot_addrs_cong)
  have "\<exists>r2 m2. core_ring_run load r1 m1 (map Consume os) =
           (map2 (\<lambda>p v. Element p (Some v)) os (map (\<lambda>a. the (m a)) ps), r2, m2) \<and>
         cr_holds r2 m2 base (drop (length os) (map (\<lambda>a. the (m a)) ps)) \<and>
         size_cr r2 = size_cr r1 \<and> entry_size r2 = entry_size r1"
    using h1 a sa by (intro consume_run) simp_all
  then have "fst (core_ring_run load r1 m1 (map Consume os)) =
      map2 (\<lambda>p v. Element p (Some v)) os (map (\<lambda>a. the (m a)) ps)"
    by auto
  also have "\<dots> = map2 (\<lambda>p e. Element p (m e)) os ps"
    using a by (intro map2_the) simp
  finally show "fst (core_ring_run load r1 m1 (map Consume os)) =
        map2 (\<lambda>p e. Element p (m e)) os ps" .
next
  assume b: "skb_holds ring k [] \<and> skb_ring_run ring h (map Queue qs) = Inr (rs', ring1) \<and>
    (\<forall>x \<in> set rs'. x = Queued 0)"
  then have h1: "skb_holds ring1 k ([] @ map (queued_desc h) qs)"
    by (intro skb_queue_run [of ring k "[]" h qs rs' ring1]) simp_all
  have "\<exists>ring2. skb_ring_run ring1 h (replicate (length qs) Dequeue) =
           Inr (map (\<lambda>d. Dequeued (skb d)) (take (length qs) (map (queued_desc h) qs)), ring2) \<and>
         skb_holds ring2 k (drop (length qs) (map (queued_desc h) qs))"
    using h1 by (intro skb_dequeue_run) simp_all
  then show "\<exists>ring2. skb_ring_run ring1 h (replicate (length qs) Dequeue) =
         Inr (map (\<lambda>p. Dequeued (Some p)) qs, ring2)"
    by (auto simp: queued_desc_def o_def)
qed

theorem fifo_order_witness:
  "(\<exists>r1 m1. core_ring_run load ex_ring2 ex_mem [Produce 64, Produce 72] =
       ([Ret 0, Ret 0], r1, m1) \<and>
     fst (core_ring_run load r1 m1 [Consume 128, Consume 136]) =
       [Element 128 (Some 11), Element 136 (Some 22)]) \<and>
   (\<exists>ring1 ring2. skb_ring_run ex_skb4 ex_heap [Queue 1, Queue 2, Queue 3] =
       Inr ([Queued 0, Queued 0, Queued 0], ring1) \<and>
     skb_ring_run ring1 ex_heap [Dequeue, Dequeue, Dequeue] =
       Inr ([Dequeued (Some 1), Dequeued (Some 2), Dequeued (Some 3)], ring2))"
proof -
  have src: "\<forall>p \<in> set [64, 72]. ex_mem p \<noteq> None" using ex_sources by simp
  have outs: "\<forall>p \<in> set [128, 136]. p \<notin> slot_addrs ex_ring2 4096 \<and> p \<noteq> NULL"
    using ex_outs by simp
  have "int (length ([] :: nat list) + length [64, 72 :: addr]) \<le> sint (size_cr ex_ring2)"
    by (simp add: ex_ring2_fields)
  from produce_run_fits [OF ex_fresh src this, of load]
  obtain r1 m1 where run: "core_ring_run load ex_ring2 ex_mem (map Produce [64, 72]) =
      ([Ret 0, Ret 0], r1, m1)"
    by (auto simp: numeral_2_eq_2)
  have "fst (core_ring_run load r1 m1 (map Consume [128, 136])) =
      map2 (\<lambda>p e. Element p (ex_mem e)) [128, 136] [64, 72]"
    using fifo_order [where r = ex_ring2 and m = ex_mem and base = 4096 and ps = "[64, 72]"
        and rs = "[Ret 0, Ret 0]" and ?r1.0 = r1 and ?m1.0 = m1 and os = "[128, 136]"
        and ring = ex_skb4 and k = 2 and h = ex_heap and qs = "[]" and rs' = "[]"
        and ?ring1.0 = ex_skb4]
      ex_fresh src outs run by simp
  then have core: "fst (core_ring_run load r1 m1 [Consume 128, Consume 136]) =
      [Element 128 (Some 11), Element 136 (Some 22)]"
    by (simp add: ex_mem_def)
  have "length ([] :: nat skb_desc list) + length [1, 2, 3 :: nat] < 2 ^ 2" by simp
  from skb_queue_run_fits [OF ex_skb_fresh this, of ex_heap]
  obtain ring1 where qrun: "skb_ring_run ex_skb4 ex_heap (map Queue [1, 2, 3]) =
      Inr ([Queued 0, Queued 0, Queued 0], ring1)"
    by (auto simp: numeral_3_eq_3)
  have "\<exists>ring2. skb_ring_run ring1 ex_heap (replicate (length [1, 2, 3 :: nat]) Dequeue) =
         Inr (map (\<lambda>p. Dequeued (Some p)) [1, 2, 3], ring2)"
    using fifo_order [where r = ex_ring2 and m = ex_mem and base = 4096 and ps = "[]"
        and rs = "[]" and ?r1.0 = ex_ring2 and ?m1.0 = ex_mem and os = "[]"
        and ring = ex_skb4 and k = 2 and h = ex_heap and qs = "[1, 2, 3]"
        and rs' = "[Queued 0, Queued 0, Queued 0]" and ?ring1.0 = ring1]
      ex_skb_fresh qrun by simp
  then obtain ring2 where "skb_ring_run ring1 ex_heap [Dequeue, Dequeue, Dequeue] =
         Inr ([Dequeued (Some 1), Dequeued (Some 2), Dequeued (Some 3)], ring2)"
    by (auto simp: numeral_3_eq_3)
  with run core qrun show ?thesis by auto
qed

text \<open>
  C2, as amended. The "otherwise" branch of the claim is taken only when the size is not
  zero: \<open>u_core_ring_produce\<close> returns \<open>- ENOSPC\<close> with the state unchanged when the
  size is 0 or the slot at the producer index is valid, and otherwise copies the element
  into the slot found by seek and moves the producer index on by one, back to 0 when it
  reaches the size (for an index within the ring this is the successor modulo the
  size). The consumer index and the consumer lock are neither written nor read: the
  step commutes with any change of them.
\<close>

theorem produce_step:
  "u_core_ring_produce r m ptr =
     (if size_cr r = 0 \<or> valid_fn r m (producer r) then (- ENOSPC, r, m)
      else (0, r\<lparr>producer := (if size_cr r \<le>s producer r + 1 then 0 else producer r + 1)\<rparr>,
            copy_fn r m (seek_fn r (producer r)) ptr)) \<and>
   u_core_ring_produce (r\<lparr>consumer := c, consumer_lock := l\<rparr>) m ptr =
     (case u_core_ring_produce r m ptr of
        (ret, r', m') \<Rightarrow> (ret, r'\<lparr>consumer := c, consumer_lock := l\<rparr>, m')) \<and>
   (0 \<le> sint (producer r) \<and> sint (producer r) < sint (size_cr r) \<and>
    \<not> valid_fn r m (producer r) \<longrightarrow>
      sint (producer (fst (snd (u_core_ring_produce r m ptr)))) =
        (sint (producer r) + 1) mod sint (size_cr r))"
proof (intro conjI impI)
  show "u_core_ring_produce r m ptr =
     (if size_cr r = 0 \<or> valid_fn r m (producer r) then (- ENOSPC, r, m)
      else (0, r\<lparr>producer := (if size_cr r \<le>s producer r + 1 then 0 else producer r + 1)\<rparr>,
            copy_fn r m (seek_fn r (producer r)) ptr))"
    by (simp add: u_core_ring_produce_def Let_def)
  show "u_core_ring_produce (r\<lparr>consumer := c, consumer_lock := l\<rparr>) m ptr =
     (case u_core_ring_produce r m ptr of
        (ret, r', m') \<Rightarrow> (ret, r'\<lparr>consumer := c, consumer_lock := l\<rparr>, m'))"
    by (simp add: u_core_ring_produce_def Let_def)
  assume a: "0 \<le> sint (producer r) \<and> sint (producer r) < sint (size_cr r) \<and>
    \<not> valid_fn r m (producer r)"
  then have "size_cr r \<noteq> 0" by auto
  with a have "producer (fst (snd (u_core_ring_produce r m ptr))) =
      (if size_cr r \<le>s producer r + 1 then 0 else producer r + 1)"
    by (simp add: u_core_ring_produce_def Let_def)
  moreover have "sint (if size_cr r \<le>s producer r + 1 then 0 else producer r + 1) =
      (sint (producer r) + 1) mod sint (size_cr r)"
    using a by (intro next_index) simp_all
  ultimately show "sint (producer (fst (snd (u_core_ring_produce r m ptr)))) =
        (sint (producer r) + 1) mod sint (size_cr r)"
    by (simp only:)
qed

theorem produce_step_witness:
  "u_core_ring_produce ex_ring2 ex_mem 64 =
     (0, ex_ring2\<lparr>producer := 1\<rparr>, slot_copy ex_mem 4096 64) \<and>
   sint (producer (fst (snd (u_core_ring_produce ex_ring2 ex_mem 64)))) = 1"
proof -
  have v: "\<not> valid_fn ex_ring2 ex_mem (producer ex_ring2)"
    by (simp add: ex_ring2_fields slot_valid_def ex_slots ex_mem_slots)
  have s: "\<not> (size_cr ex_ring2 \<le>s producer ex_ring2 + 1)"
    by (simp add: ex_ring2_fields word_sle_eq)
  have r: "0 \<le> sint (producer ex_ring2)" "sint (producer ex_ring2) < sint (size_cr ex_ring2)"
    by (simp_all add: ex_ring2_fields)
  from produce_step [of ex_ring2 ex_mem 64] v s r show ?thesis
    by (simp add: ex_ring2_fields ex_slots)
qed

text \<open>
  The claim as it was stated fails on the ring of size 0 with an invalid slot at the
  producer index: it promises a copy there, and the code returns \<open>- ENOSPC\<close>.
\<close>

theorem produce_step_counterexample:
  "\<not> valid_fn ex_ring0 ex_mem (producer ex_ring0) \<and>
   u_core_ring_produce ex_ring0 ex_mem 64 = (- ENOSPC, ex_ring0, ex_mem) \<and>
   fst (u_core_ring_produce ex_ring0 ex_mem 64) \<noteq> 0"
  by (simp add: u_core_ring_produce_def ex_ring0_def core_ring_init_def u_core_ring_set_size_def ex_table_def
      slot_table_def slot_valid_def slot_seek_def ex_mem_def ENOSPC_def)

text \<open>
  C3. \<open>u_core_ring_consume\<close> tests the slot at the consumer index. If it is invalid
  the call returns \<open>NULL\<close> and changes nothing, and so does every later call: in any run
  of calls in which no produce succeeds, every consume returns nothing and the state
  at the end is the state at the start. If the slot is valid the call copies it to the
  caller's buffer, zeroes the slot, moves the consumer index on by one (back to 0 at the
  size; for an index within the ring, the successor modulo the size) and returns the
  buffer. With the slot table, a freshly initialised ring over zeroed slots and a ring
  all of whose elements have been consumed are in the first case.
\<close>

theorem consume_step:
  "(\<not> valid_fn r m (consumer r) \<longrightarrow>
      u_core_ring_consume r m ptr = (NULL, r, m) \<and>
      (\<forall>ops rs r1 m1.
         core_ring_run obs r m ops = (rs, r1, m1) \<and> Ret 0 \<notin> set rs \<longrightarrow>
           r1 = r \<and> m1 = m \<and>
           rs = map (\<lambda>op. case op of Produce p \<Rightarrow> Ret (- ENOSPC) | Consume p \<Rightarrow> Nothing) ops)) \<and>
   (valid_fn r m (consumer r) \<longrightarrow>
      u_core_ring_consume r m ptr =
        (ptr, r\<lparr>consumer := (if size_cr r \<le>s consumer r + 1 then 0 else consumer r + 1)\<rparr>,
         zero_fn r (copy_fn r m ptr (seek_fn r (consumer r))) (consumer r))) \<and>
   (0 \<le> sint (consumer r) \<and> sint (consumer r) < sint (size_cr r) \<longrightarrow>
      sint (if size_cr r \<le>s consumer r + 1 then 0 else consumer r + 1) =
        (sint (consumer r) + 1) mod sint (size_cr r)) \<and>
   (0 < sint sz \<and> es \<noteq> 0 \<and>
    (\<forall>a \<in> (\<lambda>i. base + int i * sint es) ` {0 ..< nat (sint sz)}. m0 a = None) \<longrightarrow>
      u_core_ring_consume (snd (core_ring_init (slot_table base es) sz)) m0 ptr =
        (NULL, snd (core_ring_init (slot_table base es) sz), m0)) \<and>
   (cr_holds r' m' base q \<and> length os = length q \<and>
    (\<forall>p \<in> set os. p \<notin> slot_addrs r' base \<and> p \<noteq> NULL) \<and>
    core_ring_run load r' m' (map Consume os) = (rs', r1', m1') \<longrightarrow>
      u_core_ring_consume r1' m1' ptr = (NULL, r1', m1'))"
proof (intro conjI impI allI)
  assume "\<not> valid_fn r m (consumer r)"
  then show "u_core_ring_consume r m ptr = (NULL, r, m)"
    by (simp add: u_core_ring_consume_def)
next
  fix ops rs r1 m1
  assume "\<not> valid_fn r m (consumer r)"
    and "core_ring_run obs r m ops = (rs, r1, m1) \<and> Ret 0 \<notin> set rs"
  then show "r1 = r" "m1 = m"
    "rs = map (\<lambda>op. case op of Produce p \<Rightarrow> Ret (- ENOSPC) | Consume p \<Rightarrow> Nothing) ops"
    using idle_run [of r m obs ops rs r1 m1] by simp_all
next
  assume "valid_fn r m (consumer r)"
  then show "u_core_ring_consume r m ptr =
        (ptr, r\<lparr>consumer := (if size_cr r \<le>s consumer r + 1 then 0 else consumer r + 1)\<rparr>,
         zero_fn r (copy_fn r m ptr (seek_fn r (consumer r))) (consumer r))"
    by (simp add: u_core_ring_consume_def u_core_ring_discard_one_def Let_def)
next
  assume "0 \<le> sint (consumer r) \<and> sint (consumer r) < sint (size_cr r)"
  then show "sint (if size_cr r \<le>s consumer r + 1 then 0 else consumer r + 1) =
        (sint (consumer r) + 1) mod sint (size_cr r)"
    by (intro next_index) simp_all
next
  assume "0 < sint sz \<and> es \<noteq> 0 \<and>
    (\<forall>a \<in> (\<lambda>i. base + int i * sint es) ` {0 ..< nat (sint sz)}. m0 a = None)"
  then have "cr_holds (snd (core_ring_init (slot_table base es) sz)) m0 base []"
    by (intro fresh_ring_holds) simp_all
  then show "u_core_ring_consume (snd (core_ring_init (slot_table base es) sz)) m0 ptr =
        (NULL, snd (core_ring_init (slot_table base es) sz), m0)"
    by (rule cr_consume_empty)
next
  assume a: "cr_holds r' m' base q \<and> length os = length q \<and>
    (\<forall>p \<in> set os. p \<notin> slot_addrs r' base \<and> p \<noteq> NULL) \<and>
    core_ring_run load r' m' (map Consume os) = (rs', r1', m1')"
  then have "\<exists>r1 m1. core_ring_run load r' m' (map Consume os) =
           (map2 (\<lambda>p v. Element p (Some v)) os q, r1, m1) \<and>
         cr_holds r1 m1 base (drop (length os) q) \<and>
         size_cr r1 = size_cr r' \<and> entry_size r1 = entry_size r'"
    by (intro consume_run) simp_all
  with a have "cr_holds r1' m1' base []" by auto
  then show "u_core_ring_consume r1' m1' ptr = (NULL, r1', m1')"
    by (rule cr_consume_empty)
qed

theorem consume_step_witness:
  "u_core_ring_consume ex_ring2 ex_mem 128 = (NULL, ex_ring2, ex_mem) \<and>
   core_ring_run load ex_ring0 ex_mem [Consume 128, Produce 64, Consume 136] =
     ([Nothing, Ret (- ENOSPC), Nothing], ex_ring0, ex_mem) \<and>
   u_core_ring_consume (ex_ring2\<lparr>producer := 1\<rparr>) (slot_copy ex_mem 4096 64) 128 =
     (128, ex_ring2\<lparr>producer := 1, consumer := 1\<rparr>,
      slot_zero 4096 8 (slot_copy (slot_copy ex_mem 4096 64) 128 4096) 0) \<and>
   sint (if size_cr ex_ring2 \<le>s consumer ex_ring2 + 1 then 0 else consumer ex_ring2 + 1) = 1 \<and>
   u_core_ring_consume (snd (core_ring_init (slot_table 4096 8) 2)) ex_mem 128 =
     (NULL, snd (core_ring_init (slot_table 4096 8) 2), ex_mem) \<and>
   u_core_ring_consume ex_ring2 ex_mem 136 = (NULL, ex_ring2, ex_mem)"
proof -
  note cs = consume_step [where obs = load and sz = 2 and es = 8 and base = 4096
      and ?m0.0 = ex_mem and r' = ex_ring2 and m' = ex_mem and q = "[]" and os = "[]"
      and rs' = "[]" and ?r1' = ex_ring2 and ?m1' = ex_mem]
  have nv: "\<not> valid_fn ex_ring2 ex_mem (consumer ex_ring2)"
    by (simp add: ex_ring2_fields slot_valid_def ex_slots ex_mem_slots)
  have run: "core_ring_run load ex_ring0 ex_mem [Consume 128, Produce 64, Consume 136] =
     ([Nothing, Ret (- ENOSPC), Nothing], ex_ring0, ex_mem)"
    by (simp add: u_core_ring_consume_def u_core_ring_produce_def ex_ring0_fields
        slot_valid_def ex_slots ex_mem_slots NULL_def)
  have nv0: "\<not> valid_fn ex_ring0 ex_mem (consumer ex_ring0)"
    by (simp add: ex_ring0_fields slot_valid_def ex_slots ex_mem_slots)
  have c1: "u_core_ring_consume ex_ring2 ex_mem 128 = (NULL, ex_ring2, ex_mem)"
    using cs [where r = ex_ring2 and m = ex_mem and ptr = 128] nv by simp
  have c2: "core_ring_run load ex_ring0 ex_mem [Consume 128, Produce 64, Consume 136] =
     ([Nothing, Ret (- ENOSPC), Nothing], ex_ring0, ex_mem)"
    using cs [where r = ex_ring0 and m = ex_mem and ptr = 128] nv0 run by simp
  have v: "valid_fn (ex_ring2\<lparr>producer := 1\<rparr>) (slot_copy ex_mem 4096 64)
      (consumer (ex_ring2\<lparr>producer := 1\<rparr>))"
    by (simp add: ex_ring2_fields slot_valid_def slot_copy_def ex_slots ex_mem_slots)
  have s: "\<not> (size_cr ex_ring2 \<le>s consumer ex_ring2 + 1)"
    by (simp add: ex_ring2_fields word_sle_eq)
  have c3: "u_core_ring_consume (ex_ring2\<lparr>producer := 1\<rparr>) (slot_copy ex_mem 4096 64) 128 =
     (128, ex_ring2\<lparr>producer := 1, consumer := 1\<rparr>,
      slot_zero 4096 8 (slot_copy (slot_copy ex_mem 4096 64) 128 4096) 0)"
    using cs [where r = "ex_ring2\<lparr>producer := 1\<rparr>" and m = "slot_copy ex_mem 4096 64"
        and ptr = 128] v s
    by (simp add: ex_ring2_fields ex_slots)
  have c4: "sint (if size_cr ex_ring2 \<le>s consumer ex_ring2 + 1 then 0
      else consumer ex_ring2 + 1) = 1"
    using cs [where r = ex_ring2 and m = ex_mem and ptr = 128]
    by (simp add: ex_ring2_fields)
  have c5: "u_core_ring_consume (snd (core_ring_init (slot_table 4096 8) 2)) ex_mem 128 =
     (NULL, snd (core_ring_init (slot_table 4096 8) 2), ex_mem)"
    using cs [where r = ex_ring2 and m = ex_mem and ptr = 128] ex_zeroed by simp
  have c6: "u_core_ring_consume ex_ring2 ex_mem 136 = (NULL, ex_ring2, ex_mem)"
    using cs [where r = ex_ring2 and m = ex_mem and ptr = 136] ex_fresh by simp
  from c1 c2 c3 c4 c5 c6 show ?thesis by (simp only: simp_thms)
qed

text \<open>
  C4, as amended. An index-based ring of capacity C takes C elements; the next produce
  returns \<open>- ENOSPC\<close> and changes nothing, and the C elements come out in their
  original order. A packet ring of capacity \<open>2 ^ k\<close> takes one element less than its
  capacity: \<open>skb_ring_queue\<close> keeps one descriptor free, as \<open>CIRC_SPACE\<close> counts it,
  so the enqueue that would fill the last descriptor returns \<open>- EFAULT\<close> and changes
  nothing, and the \<open>2 ^ k - 1\<close> resident packets come out in their original order.
\<close>

theorem full_rejects:
  "(cr_holds r m base [] \<and> int (length ps) = sint (size_cr r) \<and>
    (\<forall>p \<in> set ps. m p \<noteq> None) \<and>
    length os = length ps \<and> (\<forall>p \<in> set os. p \<notin> slot_addrs r base \<and> p \<noteq> NULL) \<longrightarrow>
      (\<exists>r1 m1. core_ring_run load r m (map Produce ps) =
          (replicate (length ps) (Ret 0), r1, m1) \<and>
        u_core_ring_produce r1 m1 extra = (- ENOSPC, r1, m1) \<and>
        fst (core_ring_run load r1 m1 (map Consume os)) =
          map2 (\<lambda>p e. Element p (m e)) os ps)) \<and>
   (skb_holds ring k [] \<and> length qs + 1 = 2 ^ k \<longrightarrow>
      (\<exists>ring1 ring2. skb_ring_run ring h (map Queue qs) =
          Inr (replicate (length qs) (Queued 0), ring1) \<and>
        skb_ring_queue ring1 h extra' = Inr (- EFAULT, ring1) \<and>
        skb_ring_run ring1 h (replicate (length qs) Dequeue) =
          Inr (map (\<lambda>p. Dequeued (Some p)) qs, ring2)))"
proof (intro conjI impI)
  assume a: "cr_holds r m base [] \<and> int (length ps) = sint (size_cr r) \<and>
    (\<forall>p \<in> set ps. m p \<noteq> None) \<and>
    length os = length ps \<and> (\<forall>p \<in> set os. p \<notin> slot_addrs r base \<and> p \<noteq> NULL)"
  then have "\<exists>r1 m1. core_ring_run load r m (map Produce ps) =
           (replicate (length ps) (Ret 0), r1, m1)"
    by (intro produce_run_fits [of r m base "[]"]) simp_all
  then obtain r1 m1 where run: "core_ring_run load r m (map Produce ps) =
           (replicate (length ps) (Ret 0), r1, m1)" by blast
  have h1: "cr_holds r1 m1 base ([] @ map (\<lambda>a. the (m a)) ps)"
    and sz: "size_cr r1 = size_cr r" "entry_size r1 = entry_size r"
    using produce_run [of r m base "[]" ps load "replicate (length ps) (Ret 0)" r1 m1] a run
    by simp_all
  have sa: "slot_addrs r1 base = slot_addrs r base" using sz by (rule slot_addrs_cong)
  have full: "u_core_ring_produce r1 m1 extra = (- ENOSPC, r1, m1)"
    using h1 a sz by (intro cr_produce_full [of r1 m1 base "map (\<lambda>a. the (m a)) ps"]) simp_all
  have "\<exists>r2 m2. core_ring_run load r1 m1 (map Consume os) =
           (map2 (\<lambda>p v. Element p (Some v)) os (map (\<lambda>a. the (m a)) ps), r2, m2) \<and>
         cr_holds r2 m2 base (drop (length os) (map (\<lambda>a. the (m a)) ps)) \<and>
         size_cr r2 = size_cr r1 \<and> entry_size r2 = entry_size r1"
    using h1 a sa by (intro consume_run) simp_all
  then have "fst (core_ring_run load r1 m1 (map Consume os)) =
      map2 (\<lambda>p v. Element p (Some v)) os (map (\<lambda>a. the (m a)) ps)"
    by auto
  also have "\<dots> = map2 (\<lambda>p e. Element p (m e)) os ps"
    using a by (intro map2_the) simp
  finally show "\<exists>r1 m1. core_ring_run load r m (map Produce ps) =
          (replicate (length ps) (Ret 0), r1, m1) \<and>
        u_core_ring_produce r1 m1 extra = (- ENOSPC, r1, m1) \<and>
        fst (core_ring_run load r1 m1 (map Consume os)) =
          map2 (\<lambda>p e. Element p (m e)) os ps"
    using run full by blast
next
  assume b: "skb_holds ring k [] \<and> length qs + 1 = 2 ^ k"
  then have "\<exists>ring1. skb_ring_run ring h (map Queue qs) =
           Inr (replicate (length qs) (Queued 0), ring1) \<and>
         skb_holds ring1 k ([] @ map (queued_desc h) qs)"
    by (intro skb_queue_run_fits) simp_all
  then obtain ring1 where run: "skb_ring_run ring h (map Queue qs) =
           Inr (replicate (length qs) (Queued 0), ring1)"
    and h1: "skb_holds ring1 k (map (queued_desc h) qs)" by auto
  have full: "skb_ring_queue ring1 h extra' = Inr (- EFAULT, ring1)"
    using h1 b by (intro skb_queue_full [of ring1 k "map (queued_desc h) qs"]) simp_all
  have "\<exists>ring2. skb_ring_run ring1 h (replicate (length qs) Dequeue) =
           Inr (map (\<lambda>d. Dequeued (skb d)) (take (length qs) (map (queued_desc h) qs)), ring2) \<and>
         skb_holds ring2 k (drop (length qs) (map (queued_desc h) qs))"
    using h1 by (intro skb_dequeue_run) simp_all
  then obtain ring2 where "skb_ring_run ring1 h (replicate (length qs) Dequeue) =
         Inr (map (\<lambda>p. Dequeued (Some p)) qs, ring2)"
    by (auto simp: queued_desc_def o_def)
  with run full show "\<exists>ring1 ring2. skb_ring_run ring h (map Queue qs) =
          Inr (replicate (length qs) (Queued 0), ring1) \<and>
        skb_ring_queue ring1 h extra' = Inr (- EFAULT, ring1) \<and>
        skb_ring_run ring1 h (replicate (length qs) Dequeue) =
          Inr (map (\<lambda>p. Dequeued (Some p)) qs, ring2)"
    by blast
qed

theorem full_rejects_witness:
  "(\<exists>r1 m1. core_ring_run load ex_ring2 ex_mem [Produce 64, Produce 72] =
       ([Ret 0, Ret 0], r1, m1) \<and>
     u_core_ring_produce r1 m1 80 = (- ENOSPC, r1, m1) \<and>
     fst (core_ring_run load r1 m1 [Consume 128, Consume 136]) =
       [Element 128 (Some 11), Element 136 (Some 22)]) \<and>
   (\<exists>ring1 ring2. skb_ring_run ex_skb4 ex_heap [Queue 1, Queue 2, Queue 3] =
       Inr ([Queued 0, Queued 0, Queued 0], ring1) \<and>
     skb_ring_queue ring1 ex_heap (Some 4) = Inr (- EFAULT, ring1) \<and>
     skb_ring_run ring1 ex_heap [Dequeue, Dequeue, Dequeue] =
       Inr ([Dequeued (Some 1), Dequeued (Some 2), Dequeued (Some 3)], ring2))"
proof -
  have src: "\<forall>p \<in> set [64, 72]. ex_mem p \<noteq> None" using ex_sources by simp
  have outs: "\<forall>p \<in> set [128, 136]. p \<notin> slot_addrs ex_ring2 4096 \<and> p \<noteq> NULL"
    using ex_outs by simp
  have len: "int (length [64, 72 :: addr]) = sint (size_cr ex_ring2)"
    by (simp add: ex_ring2_fields)
  have m: "map2 (\<lambda>p e. Element p (ex_mem e)) [128, 136] [64, 72] =
      [Element 128 (Some 11), Element 136 (Some 22)]"
    by (simp add: ex_mem_def)
  have l3: "length [1, 2, 3 :: nat] + 1 = 2 ^ 2" by simp
  from full_rejects [where r = ex_ring2 and m = ex_mem and base = 4096 and ps = "[64, 72]"
        and os = "[128, 136]" and extra = 80
        and ring = ex_skb4 and k = 2 and h = ex_heap and qs = "[1, 2, 3]"
        and extra' = "Some 4"]
    ex_fresh src outs len ex_skb_fresh l3 m
  show ?thesis by (simp add: numeral_2_eq_2 numeral_3_eq_3)
qed

text \<open>
  The claim as it was stated fails on the packet ring of capacity 2: its second enqueue
  is rejected.
\<close>

theorem full_rejects_counterexample:
  "skb_outcomes (skb_ring_run ex_skb2 ex_heap [Queue 1, Queue 2]) =
     Some [Queued 0, Queued (- EFAULT)]"
  by (simp add: skb_outcomes_def ex_skb2_def skb_ring_init_def ex_skb_raw_def ex_descs_def
      skb_ring_queue_def CIRC_SPACE_def CIRC_CNT_def Let_def)

text \<open>
  C5. The count invariant. The logical count of a run is the number of its successful
  enqueues less the number of its successful dequeues (\<open>balance\<close>,
  \<open>skb_balance\<close>). After any run of produce and consume calls on an index-based ring
  that starts empty, with buffers outside the slot array and elements that are not
  zeroed, the count is congruent to producer index minus consumer index modulo the
  capacity, lies between 0 and the capacity, and both indices lie in
  \<open>[0, capacity)\<close>; a count below the capacity is exactly
  \<open>(producer - consumer) mod capacity\<close>, and at a count equal to the capacity the
  two indices coincide. After any run of queue and dequeue calls on a packet ring of a
  power-of-two size that starts empty, the run faults nowhere, the count is exactly
  \<open>(head - tail) mod size\<close>, which is what \<open>CIRC_CNT\<close> computes and what
  \<open>skb_ring_queue_len\<close> returns (as a C int, for sizes up to \<open>2 ^ 31\<close>), it lies
  between 0 and the size, and both indices are below the size.
\<close>

theorem count_invariant:
  "(cr_holds r m base [] \<and> (\<forall>op \<in> set ops. op_ok r base m op) \<and>
    core_ring_run load r m ops = (rs, r1, m1) \<longrightarrow>
      0 \<le> balance rs \<and> balance rs \<le> sint (size_cr r1) \<and>
      balance rs mod sint (size_cr r1) =
        (sint (producer r1) - sint (consumer r1)) mod sint (size_cr r1) \<and>
      (balance rs < sint (size_cr r1) \<longrightarrow>
         balance rs = (sint (producer r1) - sint (consumer r1)) mod sint (size_cr r1)) \<and>
      (balance rs = sint (size_cr r1) \<longrightarrow> producer r1 = consumer r1) \<and>
      0 \<le> sint (producer r1) \<and> sint (producer r1) < sint (size_cr r1) \<and>
      0 \<le> sint (consumer r1) \<and> sint (consumer r1) < sint (size_cr r1)) \<and>
   (skb_holds ring k [] \<longrightarrow>
      (\<exists>rs' ring1. skb_ring_run ring h ops' = Inr (rs', ring1) \<and>
         0 \<le> skb_balance rs' \<and> skb_balance rs' \<le> uint (size_skb ring1) \<and>
         skb_balance rs' =
           (uint (head ring1) - uint (tail ring1)) mod uint (size_skb ring1) \<and>
         uint (CIRC_CNT (head ring1) (tail ring1) (size_skb ring1)) = skb_balance rs' \<and>
         (k \<le> 31 \<longrightarrow> sint (skb_ring_queue_len ring1) = skb_balance rs') \<and>
         head ring1 < size_skb ring1 \<and> tail ring1 < size_skb ring1))"
proof (intro conjI impI)
  assume a: "cr_holds r m base [] \<and> (\<forall>op \<in> set ops. op_ok r base m op) \<and>
    core_ring_run load r m ops = (rs, r1, m1)"
  then have "\<exists>q1. cr_holds r1 m1 base q1 \<and> int (length q1) = int (length ([] :: 'a list)) + balance rs \<and>
           size_cr r1 = size_cr r \<and> entry_size r1 = entry_size r"
    by (intro run_holds [of r m base "[]" ops rs r1 m1]) simp_all
  then obtain q1 where h1: "cr_holds r1 m1 base q1" and n: "int (length q1) = balance rs"
    by auto
  show "0 \<le> balance rs" using n by simp
  show "balance rs \<le> sint (size_cr r1)" using h1 n by (simp add: cr_holds_def)
  show cong: "balance rs mod sint (size_cr r1) =
        (sint (producer r1) - sint (consumer r1)) mod sint (size_cr r1)"
    using cr_holds_count [OF h1] n by simp
  show "balance rs = (sint (producer r1) - sint (consumer r1)) mod sint (size_cr r1)"
    if "balance rs < sint (size_cr r1)"
    using that cong n by simp
  show "producer r1 = consumer r1" if "balance rs = sint (size_cr r1)"
  proof -
    have "sint (producer r1) = (sint (consumer r1) + int (length q1)) mod sint (size_cr r1)"
      and "0 \<le> sint (consumer r1)" "sint (consumer r1) < sint (size_cr r1)"
      using h1 by (simp_all add: cr_holds_def)
    then have "sint (producer r1) = sint (consumer r1)" using that n by simp
    then show ?thesis by (rule signed_word_eqI)
  qed
  show "0 \<le> sint (producer r1)" "sint (producer r1) < sint (size_cr r1)"
    using cr_holds_producer_range [OF h1] by simp_all
  show "0 \<le> sint (consumer r1)" "sint (consumer r1) < sint (size_cr r1)"
    using h1 by (simp_all add: cr_holds_def)
next
  assume b: "skb_holds ring k []"
  have "resident ([] :: 'b skb_desc list)" by (simp add: resident_def)
  from skb_run_holds [OF b this, of h ops']
  obtain rs' ring1 q1 where run: "skb_ring_run ring h ops' = Inr (rs', ring1)"
    and h1: "skb_holds ring1 k q1" and n: "int (length q1) = skb_balance rs'"
    by auto
  have k: "k < 64" and sz: "size_skb ring1 = 2 ^ k" using h1 by (simp_all add: skb_holds_def)
  note bd = skb_holds_bounds [OF h1]
  have "int (unat (CIRC_CNT (head ring1) (tail ring1) (size_skb ring1))) = int (length q1)"
    using skb_holds_count [OF h1] by simp
  then have cnt: "uint (CIRC_CNT (head ring1) (tail ring1) (size_skb ring1)) = skb_balance rs'"
    using n by simp
  have "uint (CIRC_CNT (head ring1) (tail ring1) (2 ^ k)) =
      (uint (head ring1) - uint (tail ring1)) mod 2 ^ k"
    using k by (intro uint_CIRC_CNT) simp
  then have gap: "skb_balance rs' =
      (uint (head ring1) - uint (tail ring1)) mod uint (size_skb ring1)"
    using cnt sz bd(3) by simp
  have ql: "sint (skb_ring_queue_len ring1) = skb_balance rs'" if "k \<le> 31"
  proof -
    have "(2::int) ^ k \<le> 2 ^ 31" using that by (intro power_increasing) simp_all
    then have "uint (CIRC_CNT (head ring1) (tail ring1) (size_skb ring1)) < 2 ^ 31"
      using cnt n bd(4) by simp
    from sint_ucast_small [OF this] cnt show ?thesis by (simp add: skb_ring_queue_len_def)
  qed
  have "0 \<le> skb_balance rs'" "skb_balance rs' \<le> uint (size_skb ring1)"
    using n bd(3,4) by simp_all
  with run gap cnt ql bd(1,2)
  show "\<exists>rs' ring1. skb_ring_run ring h ops' = Inr (rs', ring1) \<and>
         0 \<le> skb_balance rs' \<and> skb_balance rs' \<le> uint (size_skb ring1) \<and>
         skb_balance rs' =
           (uint (head ring1) - uint (tail ring1)) mod uint (size_skb ring1) \<and>
         uint (CIRC_CNT (head ring1) (tail ring1) (size_skb ring1)) = skb_balance rs' \<and>
         (k \<le> 31 \<longrightarrow> sint (skb_ring_queue_len ring1) = skb_balance rs') \<and>
         head ring1 < size_skb ring1 \<and> tail ring1 < size_skb ring1"
    by blast
qed

theorem count_invariant_witness:
  "(\<exists>rs r1 m1.
      core_ring_run load ex_ring2 ex_mem [Produce 64, Produce 72, Consume 128, Produce 80] =
        (rs, r1, m1) \<and>
      0 \<le> balance rs \<and> balance rs \<le> sint (size_cr r1) \<and>
      balance rs mod sint (size_cr r1) =
        (sint (producer r1) - sint (consumer r1)) mod sint (size_cr r1) \<and>
      0 \<le> sint (producer r1) \<and> sint (producer r1) < sint (size_cr r1) \<and>
      0 \<le> sint (consumer r1) \<and> sint (consumer r1) < sint (size_cr r1)) \<and>
   (\<exists>rs' ring1. skb_ring_run ex_skb4 ex_heap [Queue 1, Queue 2, Dequeue, Queue 3] =
        Inr (rs', ring1) \<and>
      0 \<le> skb_balance rs' \<and> skb_balance rs' \<le> uint (size_skb ring1) \<and>
      skb_balance rs' = (uint (head ring1) - uint (tail ring1)) mod uint (size_skb ring1) \<and>
      uint (CIRC_CNT (head ring1) (tail ring1) (size_skb ring1)) = skb_balance rs' \<and>
      sint (skb_ring_queue_len ring1) = skb_balance rs' \<and>
      head ring1 < size_skb ring1 \<and> tail ring1 < size_skb ring1)"
proof -
  obtain rs r1 m1 where run:
    "core_ring_run load ex_ring2 ex_mem [Produce 64, Produce 72, Consume 128, Produce 80] =
       (rs, r1, m1)"
    by (metis prod_cases3)
  note ci = count_invariant [where r = ex_ring2 and m = ex_mem and base = 4096
      and ops = "[Produce 64, Produce 72, Consume 128, Produce 80]" and rs = rs
      and ?r1.0 = r1 and ?m1.0 = m1 and ring = ex_skb4 and k = 2 and h = ex_heap
      and ops' = "[Queue 1, Queue 2, Dequeue, Queue 3]"]
  from ci ex_fresh ex_ops_ok run
  have core: "0 \<le> balance rs \<and> balance rs \<le> sint (size_cr r1) \<and>
      balance rs mod sint (size_cr r1) =
        (sint (producer r1) - sint (consumer r1)) mod sint (size_cr r1) \<and>
      0 \<le> sint (producer r1) \<and> sint (producer r1) < sint (size_cr r1) \<and>
      0 \<le> sint (consumer r1) \<and> sint (consumer r1) < sint (size_cr r1)"
    by blast
  from ci ex_skb_fresh
  have "\<exists>rs' ring1. skb_ring_run ex_skb4 ex_heap [Queue 1, Queue 2, Dequeue, Queue 3] =
        Inr (rs', ring1) \<and>
      0 \<le> skb_balance rs' \<and> skb_balance rs' \<le> uint (size_skb ring1) \<and>
      skb_balance rs' = (uint (head ring1) - uint (tail ring1)) mod uint (size_skb ring1) \<and>
      uint (CIRC_CNT (head ring1) (tail ring1) (size_skb ring1)) = skb_balance rs' \<and>
      sint (skb_ring_queue_len ring1) = skb_balance rs' \<and>
      head ring1 < size_skb ring1 \<and> tail ring1 < size_skb ring1"
    by simp
  with run core show ?thesis by blast
qed

text \<open>
  C6. Batched consume. For every function table: if the k single
  \<open>u_core_ring_consume\<close> calls into the entries \<open>array + j * entry_size\<close> of an array
  each return an element, and \<open>k = n\<close> or the ring is empty after them, then
  \<open>u_core_ring_consume_batched\<close> with limit \<open>n\<close> returns k and ends in the ring and the
  memory that the k single calls end in. With the slot table this is the case for a ring
  that holds the k elements \<open>q\<close>, for every \<open>n\<close> with \<open>k \<le> n\<close> and an array outside
  the slot storage: the batched consume returns k, the single calls return exactly the
  array's entries, entry j holds the j-th element of \<open>q\<close> afterwards, and the ring is
  empty. For \<open>k < n\<close> the loop ends at the first call that finds the ring empty, which
  changes nothing.
\<close>

theorem batched_consume:
  "(core_ring_run obs r0 m0 (map Consume (batch_ptrs array0 (sint (entry_size r0)) k0)) =
      (rs0, r2, m2) \<and>
    Nothing \<notin> set rs0 \<and> int k0 \<le> sint n0 \<and>
    (int k0 < sint n0 \<longrightarrow> \<not> valid_fn r2 m2 (consumer r2)) \<longrightarrow>
      u_core_ring_consume_batched r0 m0 array0 n0 = (of_nat k0, r2, m2)) \<and>
   (cr_holds r m base q \<and> int (length q) \<le> sint n \<and>
    os = batch_ptrs array (sint (entry_size r)) (length q) \<and>
    (\<forall>p \<in> set os. p \<notin> slot_addrs r base \<and> p \<noteq> NULL) \<longrightarrow>
      (\<exists>c r1 m1. u_core_ring_consume_batched r m array n = (c, r1, m1) \<and>
         sint c = int (length q) \<and>
         core_ring_run load r m (map Consume os) =
           (map2 (\<lambda>p v. Element p (Some v)) os q, r1, m1) \<and>
         cr_holds r1 m1 base [] \<and>
         (\<forall>j < length q. m1 (array + int j * sint (entry_size r)) = Some (q ! j))))"
proof (intro conjI impI)
  assume g: "core_ring_run obs r0 m0
      (map Consume (batch_ptrs array0 (sint (entry_size r0)) k0)) = (rs0, r2, m2) \<and>
    Nothing \<notin> set rs0 \<and> int k0 \<le> sint n0 \<and>
    (int k0 < sint n0 \<longrightarrow> \<not> valid_fn r2 m2 (consumer r2))"
  then have "batched_loop r0 m0 array0 n0 0 = (0 + of_nat k0, r2, m2)"
    by (intro batched_loop_run [where rs = rs0]) auto
  then show "u_core_ring_consume_batched r0 m0 array0 n0 = (of_nat k0, r2, m2)"
    by (simp add: u_core_ring_consume_batched_def)
next
  assume a: "cr_holds r m base q \<and> int (length q) \<le> sint n \<and>
   os = batch_ptrs array (sint (entry_size r)) (length q) \<and>
   (\<forall>p \<in> set os. p \<notin> slot_addrs r base \<and> p \<noteq> NULL)"
  let ?k = "length q" and ?es = "sint (entry_size r)"
  have len: "length os = ?k" using a by (simp add: batch_ptrs_props)
  have es0: "?es \<noteq> 0" using a by (simp add: cr_holds_def signed_eq_0_iff)
  have "\<exists>r1 m1. core_ring_run load r m (map Consume os) =
           (map2 (\<lambda>p v. Element p (Some v)) os q, r1, m1) \<and>
         cr_holds r1 m1 base (drop (length os) q) \<and>
         size_cr r1 = size_cr r \<and> entry_size r1 = entry_size r"
    using a len by (intro consume_run) simp_all
  then obtain r1 m1 where run: "core_ring_run load r m (map Consume os) =
           (map2 (\<lambda>p v. Element p (Some v)) os q, r1, m1)"
    and h1: "cr_holds r1 m1 base []"
    using len by auto
  have mem: "\<forall>j < length os. m1 (os ! j) = Some (q ! j)"
    using consume_run_mem [of r m base q os _ r1 m1] a len run es0
    by (simp add: batch_ptrs_props)
  have run': "core_ring_run load r m (map Consume (batch_ptrs array ?es ?k)) =
           (map2 (\<lambda>p v. Element p (Some v)) os q, r1, m1)"
    using run a by simp
  have "batched_loop r m array n 0 = (0 + of_nat ?k, r1, m1)"
  proof (rule batched_loop_run [OF run'])
    show "\<forall>x \<in> set (map2 (\<lambda>p v. Element p (Some v)) os q). x \<noteq> Nothing"
      by (auto simp: set_zip)
    show "sint (0 :: 32 word) + int ?k \<le> sint n" using a by simp
    show "sint (0 :: 32 word) + int ?k < sint n \<longrightarrow> \<not> valid_fn r1 m1 (consumer r1)"
      using cr_holds_empty_invalid [OF h1] by simp
  qed
  then have b: "u_core_ring_consume_batched r m array n = (of_nat ?k, r1, m1)"
    by (simp add: u_core_ring_consume_batched_def)
  have "sint n < 2 ^ 31" using sint_lt [of n] by simp
  then have "int ?k < 2 ^ 31" using a by simp
  then have c: "sint (of_nat ?k :: 32 word) = int ?k" by (rule sint_of_nat_small)
  have "\<forall>j < ?k. m1 (array + int j * ?es) = Some (q ! j)"
    using mem len a by (simp add: batch_ptrs_props)
  with b c run h1
  show "\<exists>c r1 m1. u_core_ring_consume_batched r m array n = (c, r1, m1) \<and>
        sint c = int (length q) \<and>
        core_ring_run load r m (map Consume os) =
          (map2 (\<lambda>p v. Element p (Some v)) os q, r1, m1) \<and>
        cr_holds r1 m1 base [] \<and>
        (\<forall>j < length q. m1 (array + int j * sint (entry_size r)) = Some (q ! j))"
    by blast
qed

theorem batched_consume_witness:
  "\<exists>r m. core_ring_run load ex_ring2 ex_mem [Produce 64, Produce 72] = ([Ret 0, Ret 0], r, m) \<and>
     (\<exists>c r1 m1. u_core_ring_consume_batched r m 128 5 = (c, r1, m1) \<and> sint c = 2 \<and>
        core_ring_run load r m [Consume 128, Consume 136] =
          ([Element 128 (Some 11), Element 136 (Some 22)], r1, m1) \<and>
        u_core_ring_consume_batched r m 128 5 = (2, r1, m1) \<and>
        cr_holds r1 m1 4096 [] \<and> m1 128 = Some 11 \<and> m1 136 = Some 22)"
proof -
  obtain r m where run: "core_ring_run load ex_ring2 ex_mem [Produce 64, Produce 72] =
      ([Ret 0, Ret 0], r, m)"
    and h: "cr_holds r m 4096 [11, 22]" and f: "size_cr r = 2" "entry_size r = 8"
    using ex_two_held by blast
  have bp: "batch_ptrs 128 (sint (entry_size r)) (length [11, 22 :: nat]) = [128, 136]"
    by (simp add: batch_ptrs_def f numeral_2_eq_2)
  have "slot_addrs r 4096 = slot_addrs ex_ring2 4096"
    by (rule slot_addrs_cong) (simp_all add: f ex_ring2_fields)
  then have outs: "\<forall>p \<in> set [128, 136]. p \<notin> slot_addrs r 4096 \<and> p \<noteq> NULL"
    using ex_outs by simp
  have n: "int (length [11, 22 :: nat]) \<le> sint (5 :: 32 word)" by simp
  note bc = batched_consume [where r = r and m = m and base = 4096 and q = "[11, 22]"
      and n = 5 and os = "[128, 136]" and array = 128 and obs = load and ?r0.0 = r
      and ?m0.0 = m and ?array0.0 = 128 and ?k0.0 = 2 and ?n0.0 = 5
      and ?rs0.0 = "[Element 128 (Some 11), Element 136 (Some 22)]"]
  from bc [THEN conjunct2] h n bp outs
  obtain c r1 m1 where b5: "u_core_ring_consume_batched r m 128 5 = (c, r1, m1)" "sint c = 2"
    and run1: "core_ring_run load r m [Consume 128, Consume 136] =
       ([Element 128 (Some 11), Element 136 (Some 22)], r1, m1)"
    and h1: "cr_holds r1 m1 4096 []"
    and mem: "\<forall>j < 2. m1 (128 + int j * sint (entry_size r)) = Some ([11, 22] ! j)"
    by auto
  have bp2: "batch_ptrs 128 (sint (entry_size r)) 2 = [128, 136]"
    by (simp add: batch_ptrs_def f numeral_2_eq_2)
  have nv: "\<not> valid_fn r1 m1 (consumer r1)" using h1 by (rule cr_holds_empty_invalid)
  have gen: "u_core_ring_consume_batched r m 128 5 = (2, r1, m1)"
    using bc [where ?r2.0 = r1 and ?m2.0 = m1, THEN conjunct1] run1 nv
    by (simp add: bp2)
  have "m1 (128 + int 0 * sint (entry_size r)) = Some ([11, 22] ! 0)"
    "m1 (128 + int 1 * sint (entry_size r)) = Some ([11, 22] ! 1)"
    using mem by (metis zero_less_numeral, metis one_less_numeral_iff semiring_norm(76))
  then have "m1 128 = Some 11" "m1 136 = Some 22" using f by simp_all
  with b5 run1 h1 gen run show ?thesis by blast
qed

text \<open>
  C7. The cached length. A successful \<open>skb_ring_queue\<close> on a packet ring of
  power-of-two size appends to the resident descriptors the pair of the packet pointer
  and \<open>cached_len\<close>: the packet's \<open>len\<close>, plus \<open>VLAN_HLEN\<close> exactly when the packet
  carries a VLAN tag (as numbers, whenever the sum fits a C int). \<open>skb_ring_peek\<close>
  returns the cached length of the oldest descriptor when the ring holds one, and 0 when
  it holds none. It reads the ring alone: the packets themselves (the map \<open>h\<close> from
  packet pointers to packets) are not among its arguments.
\<close>

theorem length_caching:
  "(skb_holds ring k q \<and> length q + 1 < 2 ^ k \<longrightarrow>
      (\<exists>ring1. skb_ring_queue ring h (Some p) = Inr (0, ring1) \<and>
         skb_holds ring1 k (q @ [\<lparr>skb = Some p, len = cached_len h p\<rparr>]) \<and>
         skb_ring_peek ring1 = Inr (case q of [] \<Rightarrow> cached_len h p | d # _ \<Rightarrow> len d))) \<and>
   (skb_holds ring k q \<longrightarrow>
      skb_ring_peek ring = Inr (case q of [] \<Rightarrow> 0 | d # _ \<Rightarrow> len d)) \<and>
   cached_len h p = (if vlan_present (h p) then skb_len (h p) + VLAN_HLEN else skb_len (h p)) \<and>
   (uint (skb_len (h p)) + uint VLAN_HLEN < 2 ^ 31 \<longrightarrow>
      sint (cached_len h p) =
        uint (skb_len (h p)) + (if vlan_present (h p) then uint VLAN_HLEN else 0))"
proof (intro conjI impI)
  assume a: "skb_holds ring k q \<and> length q + 1 < 2 ^ k"
  from skb_queue_cases [of ring k q h p] a
  obtain ring1 where step: "skb_ring_queue ring h (Some p) = Inr (0, ring1)"
    and h1: "skb_holds ring1 k (q @ [queued_desc h p])"
    by auto
  have "skb_ring_peek ring1 =
      Inr (case q @ [queued_desc h p] of [] \<Rightarrow> 0 | d # _ \<Rightarrow> len d)"
    using h1 by (rule skb_peek_holds)
  also have "(case q @ [queued_desc h p] of [] \<Rightarrow> 0 | d # _ \<Rightarrow> len d) =
      (case q of [] \<Rightarrow> cached_len h p | d # _ \<Rightarrow> len d)"
    by (cases q) (simp_all add: queued_desc_cached)
  finally show "\<exists>ring1. skb_ring_queue ring h (Some p) = Inr (0, ring1) \<and>
         skb_holds ring1 k (q @ [\<lparr>skb = Some p, len = cached_len h p\<rparr>]) \<and>
         skb_ring_peek ring1 = Inr (case q of [] \<Rightarrow> cached_len h p | d # _ \<Rightarrow> len d)"
    using step h1 by (auto simp: queued_desc_cached)
next
  assume "skb_holds ring k q"
  then show "skb_ring_peek ring = Inr (case q of [] \<Rightarrow> 0 | d # _ \<Rightarrow> len d)"
    by (rule skb_peek_holds)
next
  show "cached_len h p =
      (if vlan_present (h p) then skb_len (h p) + VLAN_HLEN else skb_len (h p))"
    by (simp add: cached_len_def)
next
  assume b: "uint (skb_len (h p)) + uint VLAN_HLEN < 2 ^ 31"
  show "sint (cached_len h p) =
        uint (skb_len (h p)) + (if vlan_present (h p) then uint VLAN_HLEN else 0)"
  proof (cases "vlan_present (h p)")
    case True
    then show ?thesis using sint_add_small [OF b] by (simp add: cached_len_def)
  next
    case False
    have "uint (skb_len (h p)) + uint (0 :: 32 word) < 2 ^ 31"
      using b by (simp add: VLAN_HLEN_def)
    from sint_add_small [OF this] False show ?thesis by (simp add: cached_len_def)
  qed
qed

theorem length_caching_witness:
  "(\<exists>ring1. skb_ring_queue ex_skb4 ex_heap (Some 2) = Inr (0, ring1) \<and>
      skb_holds ring1 2 [\<lparr>skb = Some 2, len = 204\<rparr>] \<and>
      skb_ring_peek ring1 = Inr 204) \<and>
   skb_ring_peek ex_skb4 = Inr 0 \<and>
   sint (cached_len ex_heap 2) = 204"
proof -
  have c: "cached_len ex_heap 2 = 204" by (simp add: cached_len_def ex_heap_def VLAN_HLEN_def)
  have l: "length ([] :: nat skb_desc list) + 1 < 2 ^ 2" by simp
  have u: "uint (skb_len (ex_heap 2)) + uint VLAN_HLEN < 2 ^ 31"
    by (simp add: ex_heap_def VLAN_HLEN_def)
  from length_caching [where ring = ex_skb4 and k = 2 and q = "[]" and h = ex_heap and p = 2]
    ex_skb_fresh l u c
  show ?thesis by simp
qed

text \<open>
  C8. \<open>skb_ring_purge\<close> on a ring with a resident packet. The loop of the C function
  tests \<open>CIRC_CNT(head, tail, size)\<close> on its local copies of the indices and never
  assigns the local \<open>tail\<close>: once entered, its condition stays true. On the ring of size
  4 that holds one packet the purge therefore does not return (its value here is
  \<open>None\<close>), and it hands the same packet to \<open>kfree_skb\<close> again at every turn (three
  turns are unrolled below). On an empty ring it returns at once, having freed nothing.
\<close>

theorem purge_never_returns:
  "skb_ring_queue ex_skb4 ex_heap (Some 1) = Inr (0, ex_skb_one) \<and>
   skb_ring_purge ex_skb_one = None \<and>
   purge_loop (head ex_skb_one) (tail ex_skb_one) ex_skb_one [] =
     purge_loop (head ex_skb_one) (tail ex_skb_one) (ex_skb_one\<lparr>tail := 1\<rparr>)
       [Some 1, Some 1, Some 1] \<and>
   skb_ring_purge ex_skb4 = Some ([], Inr ex_skb4)"
proof -
  have d: "desc_at ex_skb_one (tail ex_skb_one) = Inr \<lparr>skb = Some 1, len = 100\<rparr>"
    and c: "1 \<le> CIRC_CNT (head ex_skb_one) (tail ex_skb_one) (size_skb ex_skb_one)"
    using skb_holds_head_desc [OF ex_skb_one_holds] by simp_all
  have t: "(tail ex_skb_one + 1) AND (size_skb ex_skb_one - 1) = 1"
    by (simp add: ex_skb_one_def ex_skb4_def skb_ring_init_def ex_skb_raw_def)
  have "purge_loop (head ex_skb_one) (tail ex_skb_one) ex_skb_one [] =
     purge_loop (head ex_skb_one) (tail ex_skb_one)
       (ex_skb_one\<lparr>tail := (tail ex_skb_one + 1) AND (size_skb ex_skb_one - 1)\<rparr>)
       ([] @ replicate (Suc 2) (skb \<lparr>skb = Some (1 :: nat), len = 100\<rparr>))"
    using c d by (rule purge_loop_unroll)
  then have "purge_loop (head ex_skb_one) (tail ex_skb_one) ex_skb_one [] =
     purge_loop (head ex_skb_one) (tail ex_skb_one) (ex_skb_one\<lparr>tail := 1\<rparr>)
       [Some 1, Some 1, Some 1]"
    by (simp add: t numeral_2_eq_2)
  with ex_skb_one_queued purge_diverges [OF ex_skb_one_holds] purge_empty [OF ex_skb_fresh]
  show ?thesis by simp
qed




text \<open>
  C10. A ring whose size field is 0 is a state \<open>core_ring_init\<close> produces: it stores
  any size and returns 0. On such a ring \<open>u_core_ring_produce\<close> returns
  \<open>- ENOSPC\<close> with the ring and the memory untouched, whatever the four callbacks
  of the function table are: the size test comes first, so none of them is consulted and
  no slot is read or written.
\<close>

theorem zero_capacity_produce:
  "fst (core_ring_init r0 0) = 0 \<and> size_cr (snd (core_ring_init r0 0)) = 0 \<and>
   (size_cr r = 0 \<longrightarrow>
      u_core_ring_produce r m ptr = (- ENOSPC, r, m) \<and>
      u_core_ring_produce (r\<lparr>seek_fn := s, zero_fn := z, valid_fn := v, copy_fn := c\<rparr>) m ptr =
        (- ENOSPC, r\<lparr>seek_fn := s, zero_fn := z, valid_fn := v, copy_fn := c\<rparr>, m))"
  by (simp add: core_ring_init_def u_core_ring_set_size_def u_core_ring_produce_def)

theorem zero_capacity_produce_witness:
  "size_cr ex_ring0 = 0 \<and>
   u_core_ring_produce ex_ring0 ex_mem 64 = (- ENOSPC, ex_ring0, ex_mem) \<and>
   u_core_ring_produce
     (ex_ring0\<lparr>seek_fn := (\<lambda>i. 0), zero_fn := (\<lambda>m i. m),
               valid_fn := (\<lambda>m i. False), copy_fn := (\<lambda>m d s. m)\<rparr>) ex_mem 64 =
     (- ENOSPC, ex_ring0\<lparr>seek_fn := (\<lambda>i. 0), zero_fn := (\<lambda>m i. m),
               valid_fn := (\<lambda>m i. False), copy_fn := (\<lambda>m d s. m)\<rparr>, ex_mem)"
  using zero_capacity_produce [where ?r0.0 = ex_table and r = ex_ring0 and m = ex_mem
      and ptr = 64 and s = "\<lambda>i. 0" and z = "\<lambda>m i. m" and v = "\<lambda>m i. False"
      and c = "\<lambda>m d s. m"]
  by (simp add: ex_ring0_def core_ring_init_def u_core_ring_set_size_def)

end
